theory Spec2Isabelle
  imports Complex_Main "HOL-Library.Word" "HOL-Library.Log_Nat" "HOL-Library.Multiset"
begin

unbundle bit_operations_syntax

section \<open>JavaScript numbers\<close>

text \<open>
  A JavaScript Number is an IEEE 754 binary64 value. The finite ones are rationals, so a
  Number is modelled as a \<^typ>\<open>rat\<close> and every arithmetic operator as the exact rational
  operation followed by rounding to 53 significant bits, ties to even. A store into a
  \<open>Float32Array\<close> rounds to 24 significant bits in the same way. The exponent range is
  not bounded in the model: the values the codec computes are zero or lie in the range
  where binary64 neither overflows nor goes subnormal. NaN and the infinities do not
  occur in the arithmetic modelled here.
\<close>

type_synonym number = rat

definition rne :: "rat \<Rightarrow> int" where
  \<comment> \<open>round to the nearest integer, ties to the even one\<close>
  "rne q = (let f = \<lfloor>q\<rfloor>; r = q - of_int f in
     if r < 1 / 2 then f else if 1 / 2 < r then f + 1 else if even f then f else f + 1)"

definition ilog2 :: "rat \<Rightarrow> int" where
  \<comment> \<open>the binary exponent of a positive rational: \<open>2 powi ilog2 x \<le> x < 2 powi (ilog2 x + 1)\<close>\<close>
  "ilog2 x = (let (a, b) = quotient_of x; e = bitlen a - bitlen b in
     if 2 powi e \<le> x then e else e - 1)"

definition round_to :: "nat \<Rightarrow> rat \<Rightarrow> rat" where
  \<comment> \<open>the nearest value with \<open>p\<close> significant bits\<close>
  "round_to p x = (if x = 0 then 0 else
     let u = 2 powi (ilog2 \<bar>x\<bar> - int p + 1) in sgn x * of_int (rne (\<bar>x\<bar> / u)) * u)"

definition num_add :: "number \<Rightarrow> number \<Rightarrow> number" where
  "num_add a b = round_to 53 (a + b)"

definition num_mul :: "number \<Rightarrow> number \<Rightarrow> number" where
  "num_mul a b = round_to 53 (a * b)"

definition num_div :: "number \<Rightarrow> number \<Rightarrow> number" where
  \<comment> \<open>the divisors of the codec are the non-zero constants 233280 and 32767 and the channel count\<close>
  "num_div a b = round_to 53 (a / b)"

definition num_mod :: "number \<Rightarrow> number \<Rightarrow> number" where
  \<comment> \<open>\<open>%\<close> is exact and truncates the quotient towards zero\<close>
  "num_mod a b = a - b * of_int (if 0 \<le> a / b then \<lfloor>a / b\<rfloor> else \<lceil>a / b\<rceil>)"

definition Math_floor :: "number \<Rightarrow> int" where
  "Math_floor x = \<lfloor>x\<rfloor>"

definition fround :: "number \<Rightarrow> number" where
  \<comment> \<open>the conversion applied by a store into a \<open>Float32Array\<close>\<close>
  "fround x = round_to 24 x"

section \<open>JavaScript strings\<close>

text \<open>
  A JavaScript string is a sequence of UTF-16 code units. \<open>Array.from(str)\<close> iterates by
  code point: a lead surrogate followed by a trail surrogate is one element of two code
  units, every other code unit is an element of its own.
\<close>

type_synonym js_string = "16 word list"

definition js_string_of :: "string \<Rightarrow> js_string" where
  \<comment> \<open>the code units of an ASCII literal\<close>
  "js_string_of s = map (\<lambda>c. of_nat (of_char c)) s"

definition is_lead :: "16 word \<Rightarrow> bool" where
  "is_lead c = (0xD800 \<le> c \<and> c \<le> 0xDBFF)"

definition is_trail :: "16 word \<Rightarrow> bool" where
  "is_trail c = (0xDC00 \<le> c \<and> c \<le> 0xDFFF)"

fun Array_from :: "js_string \<Rightarrow> js_string list" where
  "Array_from [] = []"
| "Array_from [c] = [[c]]"
| "Array_from (c # d # cs) =
     (if is_lead c \<and> is_trail d then [c, d] # Array_from cs else [c] # Array_from (d # cs))"

definition char_code :: "js_string \<Rightarrow> nat" where
  \<comment> \<open>the first code unit; the elements of \<open>Array.from\<close> are never empty\<close>
  "char_code char = (case char of [] \<Rightarrow> 0 | c # _ \<Rightarrow> unat c)"

definition charCodeAt0 :: "js_string \<Rightarrow> number" where
  \<comment> \<open>\<open>char.charCodeAt(0)\<close>\<close>
  "charCodeAt0 char = of_nat (char_code char)"

definition char_code_sum :: "js_string \<Rightarrow> nat" where
  \<comment> \<open>the exact sum of the character codes that the constructor of the generator adds up\<close>
  "char_code_sum seedStr = sum_list (map char_code (Array_from seedStr))"

section \<open>The seeded generator and the chaotic shuffle\<close>

record SeededRandom =
  seed :: number

definition SeededRandom_new :: "js_string \<Rightarrow> SeededRandom" where
  "SeededRandom_new seedStr =
     \<lparr>seed = foldl (\<lambda>acc char. num_add acc (charCodeAt0 char)) 0 (Array_from seedStr)\<rparr>"

definition SeededRandom_next :: "SeededRandom \<Rightarrow> number \<times> SeededRandom" where
  "SeededRandom_next rng =
     (let s = num_mod (num_add (num_mul (seed rng) 9301) 49297) 233280
      in (num_div s 233280, rng\<lparr>seed := s\<rparr>))"

definition draw_index :: "number \<Rightarrow> nat \<Rightarrow> nat" where
  \<comment> \<open>\<open>Math.floor(x * (i + 1))\<close> for the value \<open>x\<close> returned by \<open>rng.next()\<close>; the array
      index \<open>i\<close> is below \<open>2\<^sup>5\<^sup>3\<close>, so \<open>i + 1\<close> is exact\<close>
  "draw_index x i = nat (Math_floor (num_mul x (of_nat (i + 1))))"

definition swap :: "nat list \<Rightarrow> nat \<Rightarrow> nat \<Rightarrow> nat list" where
  \<comment> \<open>\<open>[a[i], a[j]] = [a[j], a[i]]\<close>: both reads come before both writes\<close>
  "swap a i j = a[i := a ! j, j := a ! i]"

fun shuffle_loop :: "nat \<Rightarrow> SeededRandom \<Rightarrow> nat list \<Rightarrow> nat list" where
  \<comment> \<open>\<open>for (let i = ...; i > 0; i--)\<close>, started at \<open>i\<close>\<close>
  "shuffle_loop 0 rng a = a"
| "shuffle_loop (Suc k) rng a =
     (let (x, rng') = SeededRandom_next rng;
          j = draw_index x (Suc k)
      in shuffle_loop k rng' (swap a (Suc k) j))"

definition chaotic_shuffle :: "js_string \<Rightarrow> nat list \<Rightarrow> nat list" where
  \<comment> \<open>\<open>if (seed) { const rng = new SeededRandom(seed); for (...) ... }\<close>; a string is
      truthy when it is not empty\<close>
  "chaotic_shuffle seedStr a =
     (if seedStr \<noteq> [] then shuffle_loop (length a - 1) (SeededRandom_new seedStr) a else a)"

text \<open>
  The same loop as a transition system on the loop variable, the generator and the array:
  one transition is one iteration.
\<close>

inductive shuffle_step ::
  "nat \<times> SeededRandom \<times> nat list \<Rightarrow> nat \<times> SeededRandom \<times> nat list \<Rightarrow> bool" where
  iteration: "0 < i \<Longrightarrow> SeededRandom_next rng = (x, rng') \<Longrightarrow> j = draw_index x i \<Longrightarrow>
     shuffle_step (i, rng, a) (i - 1, rng', swap a i j)"

definition shuffle_run :: "js_string \<Rightarrow> nat list \<Rightarrow> nat list \<Rightarrow> bool" where
  \<comment> \<open>a complete execution of the construction of the generator and of the loop on \<open>a\<close>
      that ends with the array \<open>p\<close>\<close>
  "shuffle_run seedStr a p =
     (\<exists>rng'. shuffle_step\<^sup>*\<^sup>* (length a - 1, SeededRandom_new seedStr, a) (0, rng', p))"

section \<open>Bit strings\<close>

text \<open>
  The codec handles bits as strings of the characters \<open>0\<close> and \<open>1\<close>.
  \<open>parseInt\<close> is modelled on digit strings: it reads the longest prefix of digits below
  the radix and is NaN (\<open>None\<close>) when that prefix is empty. A NaN operand of a bitwise
  operator or of a store into an integer typed array is 0.
\<close>

definition bit_char :: "nat \<Rightarrow> char" where
  "bit_char n = (if n = 0 then CHR ''0'' else CHR ''1'')"

fun toString2 :: "nat \<Rightarrow> string" where
  \<comment> \<open>\<open>n.toString(2)\<close>\<close>
  "toString2 n = (if n < 2 then [bit_char n] else toString2 (n div 2) @ [bit_char (n mod 2)])"

declare toString2.simps [simp del]

definition padStart :: "nat \<Rightarrow> char \<Rightarrow> string \<Rightarrow> string" where
  "padStart n c s = replicate (n - length s) c @ s"

definition digit_below :: "nat \<Rightarrow> char \<Rightarrow> bool" where
  "digit_below radix c = (48 \<le> (of_char c :: nat) \<and> (of_char c :: nat) < 48 + radix)"

definition parseInt :: "nat \<Rightarrow> string \<Rightarrow> nat option" where
  \<comment> \<open>for a radix of at most 10\<close>
  "parseInt radix s =
     (let ds = takeWhile (digit_below radix) s
      in if ds = [] then None
         else Some (foldl (\<lambda>acc c. radix * acc + (of_char c - 48)) 0 ds))"

definition is_bit :: "char \<Rightarrow> bool" where
  "is_bit c = (c = CHR ''0'' \<or> c = CHR ''1'')"

definition bin_value :: "nat \<Rightarrow> string \<Rightarrow> nat" where
  \<comment> \<open>the value of a string of binary digits, continuing from \<open>a\<close>\<close>
  "bin_value a s = foldl (\<lambda>acc c. 2 * acc + (of_char c - 48)) a s"

definition slice :: "'a list \<Rightarrow> nat \<Rightarrow> nat \<Rightarrow> 'a list" where
  "slice xs i j = take (j - i) (drop i xs)"

definition byte_string :: "8 word \<Rightarrow> string" where
  \<comment> \<open>\<open>byte.toString(2).padStart(8, '0')\<close>\<close>
  "byte_string byte = padStart 8 CHR ''0'' (toString2 (unat byte))"

definition bytesToBinary :: "8 word list \<Rightarrow> string" where
  "bytesToBinary bytes = concat (map byte_string bytes)"

definition to_uint8 :: "nat option \<Rightarrow> 8 word" where
  "to_uint8 v = (case v of None \<Rightarrow> 0 | Some n \<Rightarrow> of_nat n)"

function binaryToBytes_loop :: "nat \<Rightarrow> string \<Rightarrow> 8 word list \<Rightarrow> 8 word list" where
  \<comment> \<open>\<open>for (let i = ...; i < bin.length; i += 8) bytes[i / 8] = parseInt(bin.slice(i, i + 8), 2)\<close>;
      \<open>i\<close> is a multiple of 8, and a write past the end of a typed array is ignored, as a
      list update is\<close>
  "binaryToBytes_loop i bin bytes =
     (if i < length bin
      then binaryToBytes_loop (i + 8) bin (bytes[i div 8 := to_uint8 (parseInt 2 (slice bin i (i + 8)))])
      else bytes)"
  by pat_completeness auto
termination
  by (relation "measure (\<lambda>(i, bin, bytes). length bin - i)") auto

declare binaryToBytes_loop.simps [simp del]

definition binaryToBytes :: "string \<Rightarrow> 8 word list" where
  \<comment> \<open>\<open>new Uint8Array(bin.length / 8)\<close> truncates a fractional length\<close>
  "binaryToBytes bin = binaryToBytes_loop 0 bin (replicate (length bin div 8) 0)"

definition byte_at :: "string \<Rightarrow> nat \<Rightarrow> 8 word" where
  \<comment> \<open>the byte read from the eight characters of \<open>bin\<close> that start at \<open>8 * k\<close>\<close>
  "byte_at bin k = to_uint8 (parseInt 2 (slice bin (8 * k) (8 * k + 8)))"

section \<open>The pixel codec\<close>

text \<open>
  An \<open>ImageData\<close> object holds a \<open>Uint8ClampedArray\<close> of \<open>4 * width * height\<close> components.
  \<open>encodeMessage\<close> builds its result from a copy of that array and the same width and
  height, for which the constructor of \<open>ImageData\<close> does not throw. The two functions
  return the sentinel null, modelled as \<open>None\<close>, and have no other failure.
\<close>

record ImageData =
  data :: "8 word list"
  width :: nat
  height :: nat

definition DEFAULT_SEED :: js_string where
  "DEFAULT_SEED = js_string_of ''steganopro-default-chaotic-seed''"

definition seed_or_default :: "js_string \<Rightarrow> js_string option \<Rightarrow> js_string" where
  \<comment> \<open>a default parameter: the default replaces an absent (\<open>undefined\<close>) argument only\<close>
  "seed_or_default dflt seed_arg = (case seed_arg of None \<Rightarrow> dflt | Some s \<Rightarrow> s)"

definition availableIndices_of :: "nat \<Rightarrow> nat list" where
  \<comment> \<open>\<open>for (let i = 0; i < data.length; i++) if ((i + 1) % 4 !== 0) availableIndices.push(i)\<close>\<close>
  "availableIndices_of len = filter (\<lambda>i. (i + 1) mod 4 \<noteq> 0) [0..<len]"

definition usable_slots :: "ImageData \<Rightarrow> nat" where
  \<comment> \<open>\<open>availableIndices.length\<close>\<close>
  "usable_slots imageData = length (availableIndices_of (length (data imageData)))"

definition totalBits_of :: "8 word list \<Rightarrow> string" where
  "totalBits_of payload =
     (let binaryPayload = bytesToBinary payload;
          payloadLength = length binaryPayload;
          lengthBinary = padStart 32 CHR ''0'' (toString2 payloadLength)
      in lengthBinary @ binaryPayload)"

definition set_lsb :: "8 word \<Rightarrow> char \<Rightarrow> 8 word" where
  \<comment> \<open>\<open>(newData[pixelIndex] & 0xfe) | parseInt(totalBits[i])\<close>\<close>
  "set_lsb v c = (v AND 0xfe) OR to_uint8 (parseInt 10 [c])"

definition write_step :: "nat list \<Rightarrow> string \<Rightarrow> nat \<Rightarrow> 8 word list \<Rightarrow> 8 word list" where
  \<comment> \<open>one iteration of the embedding loop\<close>
  "write_step availableIndices totalBits i newData =
     (let pixelIndex = availableIndices ! i
      in newData[pixelIndex := set_lsb (newData ! pixelIndex) (totalBits ! i)])"

definition write_bits :: "nat list \<Rightarrow> string \<Rightarrow> 8 word list \<Rightarrow> 8 word list" where
  \<comment> \<open>\<open>for (let i = 0; i < totalBits.length; i++)\<close>\<close>
  "write_bits availableIndices totalBits newData =
     fold (write_step availableIndices totalBits) [0..<length totalBits] newData"

definition encodeMessage :: "ImageData \<Rightarrow> 8 word list \<Rightarrow> js_string option \<Rightarrow> ImageData option" where
  "encodeMessage imageData payload seed_arg =
     (let sd = seed_or_default DEFAULT_SEED seed_arg;
          totalBits = totalBits_of payload;
          availableIndices = availableIndices_of (length (data imageData))
      in if length totalBits > length availableIndices then None
         else let availableIndices = chaotic_shuffle sd availableIndices
              in Some \<lparr>data = write_bits availableIndices totalBits (data imageData),
                       width = width imageData, height = height imageData\<rparr>)"

definition lsb_char :: "8 word list \<Rightarrow> nat list \<Rightarrow> nat \<Rightarrow> char" where
  \<comment> \<open>\<open>(data[availableIndices[i]] & 1).toString()\<close>; past the end of either array the read
      is \<open>undefined\<close> and \<open>undefined & 1\<close> is 0\<close>
  "lsb_char dat availableIndices i =
     (if i < length availableIndices \<and> availableIndices ! i < length dat
      then bit_char (unat (dat ! (availableIndices ! i) AND 1))
      else CHR ''0'')"

definition read_bits :: "8 word list \<Rightarrow> nat list \<Rightarrow> nat \<Rightarrow> nat \<Rightarrow> string" where
  \<comment> \<open>the string built by one extraction loop, for \<open>i\<close> from \<open>lo\<close> below \<open>hi\<close>\<close>
  "read_bits dat availableIndices lo hi = map (lsb_char dat availableIndices) [lo..<hi]"

definition decode_slots :: "ImageData \<Rightarrow> js_string option \<Rightarrow> nat list" where
  \<comment> \<open>\<open>availableIndices\<close> of \<open>decodeMessage\<close> after the shuffle\<close>
  "decode_slots imageData seed_arg =
     chaotic_shuffle (seed_or_default DEFAULT_SEED seed_arg)
       (availableIndices_of (length (data imageData)))"

definition decoded_length :: "ImageData \<Rightarrow> js_string option \<Rightarrow> nat option" where
  \<comment> \<open>\<open>payloadLength\<close> of \<open>decodeMessage\<close>; \<open>None\<close> is NaN\<close>
  "decoded_length imageData seed_arg =
     parseInt 2 (read_bits (data imageData) (decode_slots imageData seed_arg) 0 32)"

definition decodeMessage :: "ImageData \<Rightarrow> js_string option \<Rightarrow> 8 word list option" where
  "decodeMessage imageData seed_arg =
     (let availableIndices = decode_slots imageData seed_arg
      in case decoded_length imageData seed_arg of
           None \<Rightarrow> None
         | Some payloadLength \<Rightarrow>
             if payloadLength \<le> 0 \<or> int payloadLength > int (length availableIndices) - 32
             then None
             else Some (binaryToBytes
                          (read_bits (data imageData) availableIndices 32 (32 + payloadLength))))"

text \<open>
  The same encoder on a store of typed arrays, where an \<open>ImageData\<close> object holds a
  reference to its component array: \<open>new Uint8ClampedArray(data)\<close> allocates a new array
  and copies the components, and every write of the loop goes through the reference.
\<close>

record store =
  arrays :: "nat \<Rightarrow> 8 word list"
  next_ref :: nat

record ImageData_ref =
  data_ref :: nat
  width_of :: nat
  height_of :: nat

definition new_Uint8ClampedArray :: "8 word list \<Rightarrow> store \<Rightarrow> nat \<times> store" where
  "new_Uint8ClampedArray src st =
     (next_ref st, st\<lparr>arrays := (arrays st)(next_ref st := src), next_ref := Suc (next_ref st)\<rparr>)"

definition write_bits_at :: "nat \<Rightarrow> nat list \<Rightarrow> string \<Rightarrow> store \<Rightarrow> store" where
  \<comment> \<open>the embedding loop on the array that \<open>newData\<close> refers to\<close>
  "write_bits_at newData availableIndices totalBits st =
     fold (\<lambda>i st. st\<lparr>arrays := (arrays st)
                      (newData := write_step availableIndices totalBits i (arrays st newData))\<rparr>)
          [0..<length totalBits] st"

definition encodeMessage_store ::
  "store \<Rightarrow> ImageData_ref \<Rightarrow> 8 word list \<Rightarrow> js_string option \<Rightarrow> ImageData_ref option \<times> store" where
  "encodeMessage_store st imageData payload seed_arg =
     (let dat = arrays st (data_ref imageData);
          sd = seed_or_default DEFAULT_SEED seed_arg;
          totalBits = totalBits_of payload;
          availableIndices = availableIndices_of (length dat)
      in if length totalBits > length availableIndices then (None, st)
         else let availableIndices = chaotic_shuffle sd availableIndices;
                  (newData, st1) = new_Uint8ClampedArray dat st;
                  st2 = write_bits_at newData availableIndices totalBits st1
              in (Some \<lparr>data_ref = newData, width_of = width_of imageData,
                         height_of = height_of imageData\<rparr>, st2))"

section \<open>The audio codec\<close>

text \<open>
  An \<open>AudioBuffer\<close> holds one \<open>Float32Array\<close> of \<open>length\<close> samples for each channel, so a
  sample read is a rational and a sample write rounds to 24 significant bits.
\<close>

record AudioBuffer =
  numberOfChannels :: nat
  length_samples :: nat
  sampleRate :: number
  channelData :: "number list list"

definition AUDIO_DEFAULT_SEED :: js_string where
  "AUDIO_DEFAULT_SEED = js_string_of ''steganopro-audio-chaotic-seed''"

definition createBuffer :: "nat \<Rightarrow> nat \<Rightarrow> number \<Rightarrow> AudioBuffer" where
  "createBuffer channels len rate =
     \<lparr>numberOfChannels = channels, length_samples = len, sampleRate = rate,
      channelData = replicate channels (replicate len 0)\<rparr>"

definition copy_channels :: "AudioBuffer \<Rightarrow> AudioBuffer \<Rightarrow> AudioBuffer" where
  \<comment> \<open>\<open>newBuffer.getChannelData(channel).set(audioBuffer.getChannelData(channel))\<close> for every
      channel; both buffers have the same number of samples\<close>
  "copy_channels audioBuffer newBuffer =
     newBuffer\<lparr>channelData :=
       map (\<lambda>channel. let src = channelData audioBuffer ! channel
                       in src @ drop (length src) (channelData newBuffer ! channel))
           [0..<numberOfChannels audioBuffer]\<rparr>"

definition sample_channel :: "nat \<Rightarrow> nat \<Rightarrow> nat" where
  \<comment> \<open>\<open>globalIndex % channels\<close>\<close>
  "sample_channel globalIndex channels = globalIndex mod channels"

definition sample_index :: "nat \<Rightarrow> nat \<Rightarrow> nat" where
  \<comment> \<open>\<open>Math.floor(globalIndex / channels)\<close>\<close>
  "sample_index globalIndex channels =
     nat (Math_floor (num_div (of_nat globalIndex) (of_nat channels)))"

definition quantize :: "number \<Rightarrow> int" where
  \<comment> \<open>\<open>Math.floor(sample * 32767)\<close>\<close>
  "quantize sample = Math_floor (num_mul sample 32767)"

definition embed_sample :: "number \<Rightarrow> char \<Rightarrow> number" where
  \<comment> \<open>the value that \<open>channelData[sampleIndex] = intSample / 32767\<close> leaves in the
      \<open>Float32Array\<close>\<close>
  "embed_sample sample c =
     (let intSample = quantize sample;
          bit = (case parseInt 10 [c] of None \<Rightarrow> 0 | Some b \<Rightarrow> int b);
          intSample = (intSample AND 0xfffe) OR bit
      in fround (num_div (of_int intSample) 32767))"

definition write_sample_step :: "nat list \<Rightarrow> string \<Rightarrow> nat \<Rightarrow> AudioBuffer \<Rightarrow> AudioBuffer" where
  \<comment> \<open>one iteration of the embedding loop\<close>
  "write_sample_step availableIndices totalBits i newBuffer =
     (let globalIndex = availableIndices ! i;
          channel = sample_channel globalIndex (numberOfChannels newBuffer);
          sampleIndex = sample_index globalIndex (numberOfChannels newBuffer);
          chans = channelData newBuffer;
          sample = chans ! channel ! sampleIndex
      in newBuffer\<lparr>channelData :=
           chans[channel := (chans ! channel)[sampleIndex := embed_sample sample (totalBits ! i)]]\<rparr>)"

definition write_sample_bits :: "nat list \<Rightarrow> string \<Rightarrow> AudioBuffer \<Rightarrow> AudioBuffer" where
  \<comment> \<open>\<open>for (let i = 0; i < totalBits.length; i++)\<close>\<close>
  "write_sample_bits availableIndices totalBits newBuffer =
     fold (write_sample_step availableIndices totalBits) [0..<length totalBits] newBuffer"

definition encodeAudioMessage ::
  "AudioBuffer \<Rightarrow> 8 word list \<Rightarrow> js_string option \<Rightarrow> AudioBuffer option" where
  "encodeAudioMessage audioBuffer payload seed_arg =
     (let sd = seed_or_default AUDIO_DEFAULT_SEED seed_arg;
          channels = numberOfChannels audioBuffer;
          len = length_samples audioBuffer;
          totalBits = totalBits_of payload;
          totalSamples = channels * len
      in if length totalBits > totalSamples then None
         else let availableIndices = chaotic_shuffle sd [0..<totalSamples];
                  newBuffer = createBuffer channels len (sampleRate audioBuffer);
                  newBuffer = copy_channels audioBuffer newBuffer
              in Some (write_sample_bits availableIndices totalBits newBuffer))"

definition sample_lsb_char :: "AudioBuffer \<Rightarrow> nat list \<Rightarrow> nat \<Rightarrow> char" where
  \<comment> \<open>\<open>(Math.floor(sample * 32767) & 1).toString()\<close>; past the end of \<open>availableIndices\<close>
      the index, the sample and the product are \<open>undefined\<close> or NaN, and \<open>NaN & 1\<close> is 0\<close>
  "sample_lsb_char audioBuffer availableIndices i =
     (if i < length availableIndices
      then let globalIndex = availableIndices ! i;
               channel = sample_channel globalIndex (numberOfChannels audioBuffer);
               sampleIndex = sample_index globalIndex (numberOfChannels audioBuffer);
               sample = channelData audioBuffer ! channel ! sampleIndex
           in bit_char (nat (quantize sample AND 1))
      else CHR ''0'')"

definition read_sample_bits :: "AudioBuffer \<Rightarrow> nat list \<Rightarrow> nat \<Rightarrow> nat \<Rightarrow> string" where
  "read_sample_bits audioBuffer availableIndices lo hi =
     map (sample_lsb_char audioBuffer availableIndices) [lo..<hi]"

definition audio_decode_slots :: "AudioBuffer \<Rightarrow> js_string option \<Rightarrow> nat list" where
  \<comment> \<open>\<open>availableIndices\<close> of \<open>decodeAudioMessage\<close> after the shuffle\<close>
  "audio_decode_slots audioBuffer seed_arg =
     chaotic_shuffle (seed_or_default AUDIO_DEFAULT_SEED seed_arg)
       [0..<numberOfChannels audioBuffer * length_samples audioBuffer]"

definition decodeAudioMessage :: "AudioBuffer \<Rightarrow> js_string option \<Rightarrow> 8 word list option" where
  "decodeAudioMessage audioBuffer seed_arg =
     (let totalSamples = numberOfChannels audioBuffer * length_samples audioBuffer;
          availableIndices = audio_decode_slots audioBuffer seed_arg
      in case parseInt 2 (read_sample_bits audioBuffer availableIndices 0 32) of
           None \<Rightarrow> None
         | Some payloadLength \<Rightarrow>
             if payloadLength \<le> 0 \<or> int payloadLength > int totalSamples - 32
             then None
             else Some (binaryToBytes
                          (read_sample_bits audioBuffer availableIndices 32 (32 + payloadLength))))"

text \<open>
  Two notions for statements about silent carriers: the value that the store of
  \<open>1 / 32767\<close> leaves in a \<open>Float32Array\<close>, and the mono buffers of \<open>n\<close> samples whose
  samples are all 0 or that value.
\<close>

definition one_level :: number where
  "one_level = 32769 / 1073741824"

definition low_buffer :: "nat \<Rightarrow> AudioBuffer \<Rightarrow> bool" where
  "low_buffer n b = (numberOfChannels b = 1 \<and> length_samples b = n \<and>
     (\<exists>xs. channelData b = [xs] \<and> length xs = n \<and> set xs \<subseteq> {0, one_level}))"

section \<open>The encryption envelope\<close>

text \<open>
  The Web platform primitives that the envelope calls are parameters of the model: the
  UTF-8 encoder and the strict decoder, the gzip streams, PBKDF2 key derivation and
  AES-GCM. A primitive that can fail returns \<open>None\<close>. The secure random source is a tape
  of bytes that \<open>getRandomValues\<close> consumes; an \<open>await\<close> is sequential composition.
  A rejected promise is the result \<open>None\<close>.
\<close>

type_synonym bytes = "8 word list"

record platform =
  encode :: "js_string \<Rightarrow> bytes"  \<comment> \<open>\<open>TextEncoder.encode\<close>\<close>
  decodes_as_utf8 :: "bytes \<Rightarrow> bool"  \<comment> \<open>a fatal \<open>TextDecoder\<close> accepts the bytes\<close>
  has_body_stream :: "bytes \<Rightarrow> bool"  \<comment> \<open>\<open>new Response(data).body\<close> is not null\<close>
  gzip :: "bytes \<Rightarrow> bytes"  \<comment> \<open>\<open>CompressionStream('gzip')\<close>\<close>
  gunzip :: "bytes \<Rightarrow> bytes option"  \<comment> \<open>\<open>DecompressionStream('gzip')\<close>\<close>
  derive_key :: "bytes \<Rightarrow> bytes \<Rightarrow> nat \<Rightarrow> bytes"
    \<comment> \<open>PBKDF2 with SHA-256 of a password and a salt to an AES-256 key\<close>
  aes_gcm_encrypt :: "bytes \<Rightarrow> bytes \<Rightarrow> bytes \<Rightarrow> bytes"  \<comment> \<open>key, iv, plaintext\<close>
  aes_gcm_decrypt :: "bytes \<Rightarrow> bytes \<Rightarrow> bytes \<Rightarrow> bytes option"  \<comment> \<open>key, iv, ciphertext\<close>

definition ITERATIONS :: nat where
  "ITERATIONS = 100000"

definition SALT_SIZE :: nat where
  "SALT_SIZE = 16"

definition IV_SIZE :: nat where
  "IV_SIZE = 12"

definition DEFAULT_KEY :: js_string where
  "DEFAULT_KEY = js_string_of ''steganopro-internal-system-key-2026''"

definition getRandomValues :: "nat \<Rightarrow> (nat \<Rightarrow> 8 word) \<Rightarrow> bytes \<times> (nat \<Rightarrow> 8 word)" where
  \<comment> \<open>\<open>window.crypto.getRandomValues(new Uint8Array(n))\<close>\<close>
  "getRandomValues n tape = (map tape [0..<n], \<lambda>i. tape (i + n))"

definition uint8_set :: "bytes \<Rightarrow> bytes \<Rightarrow> nat \<Rightarrow> bytes option" where
  \<comment> \<open>\<open>target.set(source, offset)\<close>; a source that does not fit throws a RangeError\<close>
  "uint8_set target source offset =
     (if offset + length source > length target then None
      else Some (take offset target @ source @ drop (offset + length source) target))"

definition compressData :: "platform \<Rightarrow> bytes \<Rightarrow> bytes" where
  "compressData pf dat = (if \<not> has_body_stream pf dat then dat else gzip pf dat)"

definition decompressData :: "platform \<Rightarrow> bytes \<Rightarrow> bytes" where
  "decompressData pf dat =
     (if \<not> has_body_stream pf dat then dat
      else case gunzip pf dat of None \<Rightarrow> dat | Some decompressed \<Rightarrow> decompressed)"

definition encryptData ::
  "platform \<Rightarrow> (nat \<Rightarrow> 8 word) \<Rightarrow> js_string + bytes \<Rightarrow> js_string option \<Rightarrow> bool option \<Rightarrow>
   (bytes \<times> (nat \<Rightarrow> 8 word)) option" where
  "encryptData pf tape dat password_arg compress_arg =
     (let password = (case password_arg of None \<Rightarrow> DEFAULT_KEY | Some pw \<Rightarrow> pw);
          compress = (case compress_arg of None \<Rightarrow> True | Some c \<Rightarrow> c);
          rawData = (case dat of Inl str \<Rightarrow> encode pf str | Inr b \<Rightarrow> b);
          rawData = (if compress then compressData pf rawData else rawData);
          (salt, tape) = getRandomValues SALT_SIZE tape;
          (iv, tape) = getRandomValues IV_SIZE tape;
          key = derive_key pf (encode pf password) salt ITERATIONS;
          encrypted = aes_gcm_encrypt pf key iv rawData;
          combined = replicate (1 + length salt + length iv + length encrypted) 0;
          combined = combined[0 := (if compress then 1 else 0)]
      in case uint8_set combined salt 1 of
           None \<Rightarrow> None
         | Some combined \<Rightarrow>
            (case uint8_set combined iv (1 + length salt) of
               None \<Rightarrow> None
             | Some combined \<Rightarrow>
                (case uint8_set combined encrypted (1 + length salt + length iv) of
                   None \<Rightarrow> None
                 | Some combined \<Rightarrow> Some (combined, tape))))"

definition decryptData ::
  "platform \<Rightarrow> bytes \<Rightarrow> js_string option \<Rightarrow> (bytes \<times> bool) option" where
  \<comment> \<open>the result is the pair of \<open>data\<close> and \<open>isText\<close>\<close>
  "decryptData pf combined password_arg =
     (let password = (case password_arg of None \<Rightarrow> DEFAULT_KEY | Some pw \<Rightarrow> pw);
          isCompressed = (case combined of [] \<Rightarrow> False | b # _ \<Rightarrow> b = 1);
          salt = slice combined 1 (1 + SALT_SIZE);
          iv = slice combined (1 + SALT_SIZE) (1 + SALT_SIZE + IV_SIZE);
          dat = drop (1 + SALT_SIZE + IV_SIZE) combined;
          key = derive_key pf (encode pf password) salt ITERATIONS
      in case aes_gcm_decrypt pf key iv dat of
           None \<Rightarrow> None
         | Some decrypted \<Rightarrow>
             let resultData = (if isCompressed then decompressData pf decrypted else decrypted)
             in Some (resultData, decodes_as_utf8 pf resultData))"

text \<open>
  A small instance of the platform, for concrete instances of statements about the
  envelope: its compressor prefixes a marker byte, its cipher appends a one-byte tag, and
  both are undone by their inverses.
\<close>

definition toy_platform :: platform where
  "toy_platform =
     \<lparr>encode = map ucast,
      decodes_as_utf8 = (\<lambda>b. list_all (\<lambda>c. c < 128) b),
      has_body_stream = (\<lambda>_. True),
      gzip = (\<lambda>m. 31 # m),
      gunzip = (\<lambda>c. case c of [] \<Rightarrow> None | x # m \<Rightarrow> if x = 31 then Some m else None),
      derive_key = (\<lambda>password salt n. password @ salt),
      aes_gcm_encrypt = (\<lambda>key iv m. m @ [0]),
      aes_gcm_decrypt = (\<lambda>key iv c. if c = [] then None else Some (butlast c))\<rparr>"

section \<open>Properties of the number model\<close>

lemma rne_upper: "of_int (rne q) \<le> q + 1 / 2"
  unfolding rne_def Let_def by (auto; linarith)

lemma rne_nonneg: "0 \<le> q \<Longrightarrow> 0 \<le> rne q"
  unfolding rne_def Let_def by auto

lemma rne_of_int: "rne (of_int n) = n"
  unfolding rne_def Let_def by simp

lemma ilog2_bounds:
  assumes "0 < x"
  shows "2 powi (ilog2 x) \<le> x" and "x < 2 powi (ilog2 x + 1)"
proof -
  obtain a b where ab: "quotient_of x = (a, b)" by (cases "quotient_of x")
  have b: "0 < b" using ab quotient_of_denom_pos by blast
  have x: "x = of_int a / of_int b" using ab quotient_of_div by blast
  have a: "0 < a" using assms b x by (simp add: zero_less_divide_iff)
  define la lb where "la = bitlen a" and "lb = bitlen b"
  have la1: "1 \<le> la" and lb1: "1 \<le> lb"
    using a b by (auto simp: la_def lb_def bitlen_alt_def)
  have pw: "(2::rat) powi k = of_int (2 ^ nat k)" if "0 \<le> k" for k
    using that by (simp add: power_int_def)
  have A: "(2::rat) powi (la - 1) \<le> of_int a" "of_int a < (2::rat) powi la"
  proof -
    have "(2::int) ^ nat (la - 1) \<le> a" "a < 2 ^ nat la"
      using bitlen_bounds[OF a] by (simp_all add: la_def)
    then have "(of_int (2 ^ nat (la - 1)) :: rat) \<le> of_int a" "(of_int a :: rat) < of_int (2 ^ nat la)"
      by (simp_all only: of_int_le_iff of_int_less_iff)
    then show "(2::rat) powi (la - 1) \<le> of_int a" "of_int a < (2::rat) powi la"
      using la1 by (simp_all only: pw)
  qed
  have B: "(2::rat) powi (lb - 1) \<le> of_int b" "of_int b < (2::rat) powi lb"
  proof -
    have "(2::int) ^ nat (lb - 1) \<le> b" "b < 2 ^ nat lb"
      using bitlen_bounds[OF b] by (simp_all add: lb_def)
    then have "(of_int (2 ^ nat (lb - 1)) :: rat) \<le> of_int b" "(of_int b :: rat) < of_int (2 ^ nat lb)"
      by (simp_all only: of_int_le_iff of_int_less_iff)
    then show "(2::rat) powi (lb - 1) \<le> of_int b" "of_int b < (2::rat) powi lb"
      using lb1 by (simp_all only: pw)
  qed
  have bq: "(0::rat) < of_int b" using b by simp
  have up: "x < 2 powi (la - lb + 1)"
  proof -
    have "(2::rat) powi la = 2 powi (la - lb + 1) * 2 powi (lb - 1)"
      by (simp flip: power_int_add)
    also have "\<dots> \<le> 2 powi (la - lb + 1) * of_int b"
      using B(1) by (intro mult_left_mono) simp_all
    finally have "of_int a < 2 powi (la - lb + 1) * (of_int b :: rat)"
      using A(2) by simp
    then show ?thesis using bq by (simp add: x pos_divide_less_eq)
  qed
  have lo: "2 powi (la - lb - 1) \<le> x"
  proof -
    have "2 powi (la - lb - 1) * (of_int b :: rat) \<le> 2 powi (la - lb - 1) * 2 powi lb"
      using B(2) by (intro mult_left_mono) simp_all
    also have "\<dots> = 2 powi (la - 1)"
      by (simp flip: power_int_add)
    finally have "2 powi (la - lb - 1) * (of_int b :: rat) \<le> of_int a"
      using A(1) by simp
    then show ?thesis using bq by (simp add: x pos_le_divide_eq)
  qed
  have e: "ilog2 x = (if 2 powi (la - lb) \<le> x then la - lb else la - lb - 1)"
    by (simp add: ilog2_def ab la_def lb_def)
  show "2 powi (ilog2 x) \<le> x" using lo by (simp add: e)
  show "x < 2 powi (ilog2 x + 1)" using up by (auto simp: e)
qed

text \<open>
  Two known values: the binary64 number nearest to one tenth, and the value that a
  \<open>Float32Array\<close> keeps of the binary64 quotient \<open>1 / 32767\<close>.
\<close>

lemma round_to_53_tenth: "num_div 1 10 = 3602879701896397 / 36028797018963968"
  by code_simp

lemma fround_one_level: "fround (num_div 1 32767) = one_level"
  by code_simp

lemma round_to_nonneg: "0 \<le> x \<Longrightarrow> 0 \<le> round_to p x"
  unfolding round_to_def Let_def
  by (auto intro!: mult_nonneg_nonneg rne_nonneg divide_nonneg_nonneg)

lemma round_to_upper:
  assumes "0 \<le> x"
  shows "round_to p x \<le> x + x / 2 ^ p"
proof (cases "x = 0")
  case True
  then show ?thesis by (simp add: round_to_def)
next
  case False
  then have x: "0 < x" using assms by simp
  define u :: rat where "u = 2 powi (ilog2 x - int p + 1)"
  have u: "0 < u" by (simp add: u_def)
  have r: "round_to p x = of_int (rne (x / u)) * u"
    using x by (simp add: round_to_def u_def Let_def)
  have "of_int (rne (x / u)) * u \<le> (x / u + 1 / 2) * u"
    using rne_upper[of "x / u"] u by (intro mult_right_mono) simp_all
  also have "\<dots> = x + u / 2" using u by (simp add: field_simps)
  also have "u / 2 = 2 powi (ilog2 x) / 2 ^ p"
    by (simp add: u_def power_int_add power_int_diff)
  also have "\<dots> \<le> x / 2 ^ p"
    using ilog2_bounds(1)[OF x] by (simp add: divide_right_mono)
  finally show ?thesis using r by simp
qed

lemma round_to_of_nat: "\<exists>m::nat. round_to p (of_nat n) = of_nat m"
proof (cases "n = 0")
  case True
  then show ?thesis by (simp add: round_to_def)
next
  case False
  define x :: rat where "x = of_nat n"
  have x: "1 \<le> x" using False by (simp add: x_def)
  then have x0: "0 < x" by simp
  define k where "k = ilog2 x - int p + 1"
  have r: "round_to p x = of_int (rne (x / 2 powi k)) * 2 powi k"
    using x0 by (simp add: round_to_def k_def Let_def)
  have e: "0 \<le> ilog2 x"
  proof (rule ccontr)
    assume "\<not> 0 \<le> ilog2 x"
    then have "ilog2 x + 1 \<le> 0" by simp
    then have "(2::rat) powi (ilog2 x + 1) \<le> 2 powi 0"
      by (intro power_int_increasing) simp_all
    then show False using ilog2_bounds(2)[OF x0] x by simp
  qed
  show ?thesis
  proof (cases "0 \<le> k")
    case True
    have pk: "(2::rat) powi k = 2 ^ nat k"
      using True by (simp add: power_int_def)
    have r': "round_to p x = of_int (rne (x / 2 ^ nat k)) * 2 ^ nat k"
      using r by (simp only: pk)
    have "0 \<le> rne (x / 2 ^ nat k)" using x0 by (intro rne_nonneg) simp
    then obtain m :: nat where m: "rne (x / 2 ^ nat k) = int m"
      using nonneg_int_cases by blast
    have "round_to p x = of_nat (m * 2 ^ nat k)"
      by (simp add: r' m)
    then show ?thesis unfolding x_def by blast
  next
    case False
    then have "x / 2 powi k = of_int (int (n * 2 ^ nat (- k)))"
      by (simp add: x_def power_int_def field_simps)
    then have "rne (x / 2 powi k) = int (n * 2 ^ nat (- k))"
      by (simp only: rne_of_int)
    then have "round_to p x = of_nat n"
      using False by (simp add: r power_int_def field_simps)
    then show ?thesis unfolding x_def by blast
  qed
qed

lemma round_to_exact:
  assumes "n < 2 ^ p"
  shows "round_to p (of_nat n) = of_nat n"
proof (cases "n = 0")
  case True
  then show ?thesis by (simp add: round_to_def)
next
  case False
  define x :: rat where "x = of_nat n"
  have x0: "0 < x" using False by (simp add: x_def)
  define k where "k = ilog2 x - int p + 1"
  have r: "round_to p x = of_int (rne (x / 2 powi k)) * 2 powi k"
    using x0 by (simp add: round_to_def k_def Let_def)
  have "(2::rat) powi ilog2 x \<le> x" by (rule ilog2_bounds(1)[OF x0])
  also have "x < 2 powi (int p)" using assms unfolding x_def
    by (metis of_nat_less_iff of_nat_numeral of_nat_power power_int_of_nat)
  finally have "ilog2 x < int p"
    by (rule power_int_le_imp_less_exp[rotated]) simp_all
  then have k: "k \<le> 0" by (simp add: k_def)
  then have "x / 2 powi k = of_int (int (n * 2 ^ nat (- k)))"
    by (simp add: x_def power_int_def field_simps)
  then have "rne (x / 2 powi k) = int (n * 2 ^ nat (- k))"
    by (simp only: rne_of_int)
  then have "round_to p x = of_nat n"
    using k by (simp add: r power_int_def field_simps)
  then show ?thesis unfolding x_def .
qed

section \<open>Properties of the generator and of the shuffle\<close>

lemma num_mod_of_nat: "num_mod (of_nat m) (of_nat b) = of_nat (m mod b)"
proof -
  have f: "\<lfloor>(of_nat m :: rat) / of_nat b\<rfloor> = int (m div b)"
    by (simp add: floor_divide_of_nat_eq)
  have "(of_nat m :: rat) = of_nat (b * (m div b) + m mod b)" by simp
  then have "(of_nat m :: rat) - of_nat b * of_nat (m div b) = of_nat (m mod b)"
    by (simp only: of_nat_add of_nat_mult)
  then show ?thesis
    by (simp add: num_mod_def f)
qed

lemma SeededRandom_next_state:
  assumes "seed rng = of_nat n" and "SeededRandom_next rng = (x, rng')"
  shows "\<exists>k<233280. seed rng' = of_nat k \<and> x = num_div (of_nat k) 233280"
proof -
  obtain m1 :: nat where m1: "num_mul (of_nat n) 9301 = of_nat m1"
    using round_to_of_nat[of 53 "n * 9301"] by (auto simp: num_mul_def)
  obtain m2 :: nat where m2: "num_add (of_nat m1) 49297 = of_nat m2"
    using round_to_of_nat[of 53 "m1 + 49297"] by (auto simp: num_add_def)
  have "num_mod (of_nat m2) 233280 = of_nat (m2 mod 233280)"
    using num_mod_of_nat[of m2 233280] by simp
  then have "seed rng' = of_nat (m2 mod 233280) \<and> x = num_div (of_nat (m2 mod 233280)) 233280"
    using assms by (auto simp: SeededRandom_next_def Let_def m1 m2)
  moreover have "m2 mod 233280 < 233280" by simp
  ultimately show ?thesis by blast
qed

lemma SeededRandom_new_state: "\<exists>n::nat. seed (SeededRandom_new seedStr) = of_nat n"
proof -
  have "\<exists>n::nat. foldl (\<lambda>acc char. num_add acc (charCodeAt0 char)) (of_nat m) cs = of_nat n"
    for cs and m :: nat
  proof (induction cs arbitrary: m)
    case Nil
    then show ?case by auto
  next
    case (Cons c cs)
    have "\<exists>v::nat. charCodeAt0 c = of_nat v"
      unfolding charCodeAt0_def by blast
    then obtain v :: nat where v: "charCodeAt0 c = of_nat v" by blast
    obtain m' :: nat where "num_add (of_nat m) (of_nat v) = of_nat m'"
      using round_to_of_nat[of 53 "m + v"] by (auto simp: num_add_def)
    then show ?case using Cons.IH[of m'] by (simp add: v)
  qed
  from this[of 0] show ?thesis by (simp add: SeededRandom_new_def)
qed

lemma round_to_53_upper:
  assumes "0 \<le> z"
  shows "round_to 53 z \<le> z * (1 + 1 / 2 ^ 20)"
proof -
  have "(2::rat) ^ 20 \<le> 2 ^ 53" by (rule power_increasing) simp_all
  then have "z / 2 ^ 53 \<le> z / 2 ^ 20"
    using assms by (intro divide_left_mono) simp_all
  then have "z + z / 2 ^ 53 \<le> z + z / 2 ^ 20" by (rule add_left_mono)
  also have "\<dots> = z * (1 + 1 / 2 ^ 20)" by (simp only: distrib_left mult_1_right times_divide_eq_right)
  finally show ?thesis using round_to_upper[OF assms, of 53] by (rule order_trans[rotated])
qed

lemma draw_index_le:
  assumes "k < 233280"
  shows "draw_index (num_div (of_nat k) 233280) i \<le> i"
proof -
  define q :: rat where "q = of_nat k / 233280"
  define x where "x = round_to 53 q"
  define y where "y = x * of_nat (i + 1)"
  define c :: rat where "c = 1 + 1 / 2 ^ 20"
  have c0: "0 \<le> c" by (simp add: c_def)
  have cc: "233279 / 233280 * (c * c) < 1" by (simp add: c_def)
  have n0: "(0::rat) < of_nat (i + 1)" by simp
  have q0: "0 \<le> q" by (simp add: q_def)
  have "k \<le> 233279" using assms by simp
  then have "(of_nat k :: rat) \<le> of_nat 233279" by (simp only: of_nat_le_iff)
  then have q1: "q \<le> 233279 / 233280" by (simp add: q_def)
  have x0: "0 \<le> x" unfolding x_def by (rule round_to_nonneg[OF q0])
  have x1: "x \<le> q * c"
    unfolding x_def c_def by (rule round_to_53_upper[OF q0])
  have y0: "0 \<le> y" using x0 unfolding y_def by (intro mult_nonneg_nonneg) simp_all
  have "round_to 53 y \<le> y * c"
    unfolding c_def by (rule round_to_53_upper[OF y0])
  also have "\<dots> \<le> (q * c) * of_nat (i + 1) * c"
    unfolding y_def using x1 c0 n0 by (intro mult_right_mono) simp_all
  also have "\<dots> = (q * (c * c)) * of_nat (i + 1)" by (simp only: mult_ac)
  also have "\<dots> \<le> ((233279 / 233280) * (c * c)) * of_nat (i + 1)"
    using q1 c0 n0 by (intro mult_right_mono) simp_all
  also have "\<dots> < 1 * of_nat (i + 1)"
    using cc n0 by (intro mult_strict_right_mono)
  finally have "round_to 53 y < of_nat (i + 1)" by (simp only: mult_1)
  then have "\<lfloor>round_to 53 y\<rfloor> < int (i + 1)" by (simp only: floor_less_iff of_int_of_nat_eq)
  then have "nat \<lfloor>round_to 53 y\<rfloor> \<le> i" by simp
  then show ?thesis
    unfolding draw_index_def Math_floor_def num_mul_def num_div_def x_def y_def q_def
    by simp
qed

lemma length_swap: "length (swap a i j) = length a"
  by (simp add: swap_def)

lemma mset_swap_list: "i < length a \<Longrightarrow> j < length a \<Longrightarrow> mset (swap a i j) = mset a"
  unfolding swap_def by (rule mset_swap)

lemma length_shuffle_loop: "length (shuffle_loop k rng a) = length a"
  by (induction k arbitrary: rng a) (simp_all add: length_swap split: prod.splits)

lemma mset_shuffle_loop:
  "seed rng = of_nat n \<Longrightarrow> k < length a \<Longrightarrow> mset (shuffle_loop k rng a) = mset a"
proof (induction k arbitrary: rng a n)
  case 0
  then show ?case by simp
next
  case (Suc k)
  obtain x rng' where nx: "SeededRandom_next rng = (x, rng')"
    by (cases "SeededRandom_next rng")
  from SeededRandom_next_state[OF Suc.prems(1) nx]
  obtain m where m: "m < 233280" "seed rng' = of_nat m" "x = num_div (of_nat m) 233280"
    by blast
  have j: "draw_index x (Suc k) \<le> Suc k" unfolding m(3) by (rule draw_index_le[OF m(1)])
  have "mset (shuffle_loop k rng' (swap a (Suc k) (draw_index x (Suc k))))
        = mset (swap a (Suc k) (draw_index x (Suc k)))"
    using Suc.prems(2) by (intro Suc.IH[OF m(2)]) (simp add: length_swap)
  also have "\<dots> = mset a"
    using Suc.prems(2) j by (intro mset_swap_list) simp_all
  finally show ?case by (simp add: nx)
qed

lemma mset_chaotic_shuffle: "mset (chaotic_shuffle seedStr a) = mset a"
proof (cases "seedStr \<noteq> [] \<and> a \<noteq> []")
  case True
  obtain n :: nat where "seed (SeededRandom_new seedStr) = of_nat n"
    using SeededRandom_new_state by blast
  then show ?thesis using True
    by (simp add: chaotic_shuffle_def mset_shuffle_loop)
next
  case False
  then show ?thesis by (auto simp: chaotic_shuffle_def)
qed

lemma length_chaotic_shuffle: "length (chaotic_shuffle seedStr a) = length a"
  using mset_chaotic_shuffle[of seedStr a] by (rule mset_eq_length)

lemma set_chaotic_shuffle: "set (chaotic_shuffle seedStr a) = set a"
  using mset_chaotic_shuffle[of seedStr a] by (rule mset_eq_setD)

lemma distinct_chaotic_shuffle: "distinct (chaotic_shuffle seedStr a) = distinct a"
  using mset_chaotic_shuffle[of seedStr a] by (rule mset_eq_imp_distinct_iff)

subsection \<open>Executions of the loop\<close>

lemma shuffle_step_deterministic:
  "shuffle_step c c1 \<Longrightarrow> shuffle_step c c2 \<Longrightarrow> c1 = c2"
  by (auto elim!: shuffle_step.cases)

lemma shuffle_step_final: "\<not> shuffle_step (0, rng, a) c"
  by (auto elim: shuffle_step.cases)

lemma shuffle_steps_loop:
  "\<exists>rng'. shuffle_step\<^sup>*\<^sup>* (k, rng, a) (0, rng', shuffle_loop k rng a)"
proof (induction k arbitrary: rng a)
  case 0
  then show ?case by auto
next
  case (Suc k)
  obtain x rng1 where nx: "SeededRandom_next rng = (x, rng1)"
    by (cases "SeededRandom_next rng")
  have "shuffle_step (Suc k, rng, a) (Suc k - 1, rng1, swap a (Suc k) (draw_index x (Suc k)))"
    by (rule shuffle_step.iteration[OF _ nx]) simp_all
  moreover obtain rng' where
    "shuffle_step\<^sup>*\<^sup>* (k, rng1, swap a (Suc k) (draw_index x (Suc k)))
       (0, rng', shuffle_loop k rng1 (swap a (Suc k) (draw_index x (Suc k))))"
    using Suc.IH by blast
  ultimately have "shuffle_step\<^sup>*\<^sup>* (Suc k, rng, a)
       (0, rng', shuffle_loop k rng1 (swap a (Suc k) (draw_index x (Suc k))))"
    by (simp add: converse_rtranclp_into_rtranclp)
  then show ?case by (auto simp: nx)
qed

lemma shuffle_steps_unique:
  assumes "shuffle_step\<^sup>*\<^sup>* c (0, r1, p)" and "shuffle_step\<^sup>*\<^sup>* c (0, r2, q)"
  shows "p = q"
  using assms
proof (induction rule: converse_rtranclp_induct)
  case base
  then show ?case
    by (auto elim: converse_rtranclpE dest: shuffle_step_final[THEN notE])
next
  case (step c c')
  from step.prems show ?case
  proof (cases rule: converse_rtranclpE)
    case base
    then show ?thesis using step.hyps(1) shuffle_step_final by blast
  next
    case (step c'')
    then show ?thesis
      using shuffle_step_deterministic step.IH step.hyps(1) by blast
  qed
qed

lemma shuffle_run_total:
  "shuffle_run seedStr a (shuffle_loop (length a - 1) (SeededRandom_new seedStr) a)"
  unfolding shuffle_run_def by (rule shuffle_steps_loop)

lemma shuffle_run_chaotic_shuffle:
  "seedStr \<noteq> [] \<Longrightarrow> shuffle_run seedStr a (chaotic_shuffle seedStr a)"
  using shuffle_run_total[of seedStr a] by (simp add: chaotic_shuffle_def)

subsection \<open>Exact steps of the generator\<close>

lemma SeededRandom_new_exact:
  assumes "char_code_sum seedStr < 2 ^ 53"
  shows "seed (SeededRandom_new seedStr) = of_nat (char_code_sum seedStr)"
proof -
  have "foldl (\<lambda>acc char. num_add acc (charCodeAt0 char)) (of_nat m) cs
        = of_nat (m + sum_list (map char_code cs))"
    if "m + sum_list (map char_code cs) < 2 ^ 53" for cs and m :: nat
    using that
  proof (induction cs arbitrary: m)
    case Nil
    then show ?case by simp
  next
    case (Cons c cs)
    have "m + char_code c < 2 ^ 53" using Cons.prems by simp
    then have "num_add (of_nat m) (charCodeAt0 c) = of_nat (m + char_code c)"
      using round_to_exact[of "m + char_code c" 53]
      by (simp add: num_add_def charCodeAt0_def)
    moreover have "foldl (\<lambda>acc char. num_add acc (charCodeAt0 char)) (of_nat (m + char_code c)) cs
        = of_nat (m + char_code c + sum_list (map char_code cs))"
      using Cons.prems by (intro Cons.IH) simp
    ultimately show ?case by (simp add: add.assoc)
  qed
  from this[of 0 "Array_from seedStr"] assms show ?thesis
    by (simp add: SeededRandom_new_def char_code_sum_def)
qed

lemma SeededRandom_next_exact:
  assumes "seed rng = of_nat n" and "n * 9301 + 49297 < 2 ^ 53"
  shows "SeededRandom_next rng =
    (num_div (of_nat ((n * 9301 + 49297) mod 233280)) 233280,
     rng\<lparr>seed := of_nat ((n * 9301 + 49297) mod 233280)\<rparr>)"
proof -
  have "n * 9301 < 2 ^ 53" using assms(2) by simp
  then have m1: "num_mul (of_nat n) 9301 = of_nat (n * 9301)"
    using round_to_exact[of "n * 9301" 53] by (simp add: num_mul_def)
  have m2: "num_add (of_nat (n * 9301)) 49297 = of_nat (n * 9301 + 49297)"
    using round_to_exact[OF assms(2)] by (simp add: num_add_def)
  have m3: "num_mod (of_nat (n * 9301 + 49297)) 233280 = of_nat ((n * 9301 + 49297) mod 233280)"
    using num_mod_of_nat[of "n * 9301 + 49297" 233280] by simp
  show ?thesis
    unfolding SeededRandom_next_def assms(1) m1 m2 m3 Let_def ..
qed

section \<open>Properties of bit strings\<close>

lemma is_bit_bit_char: "is_bit (bit_char n)"
  by (simp add: is_bit_def bit_char_def)

lemma is_bit_digit: "is_bit c \<Longrightarrow> digit_below 2 c"
  by (auto simp: is_bit_def digit_below_def)

lemma digit_bit_char: "(of_char (bit_char n) :: nat) - 48 = (if n = 0 then 0 else 1)"
  by (simp add: bit_char_def)

lemma toString2_bits: "list_all is_bit (toString2 n)"
proof (induction n rule: toString2.induct)
  case (1 n)
  show ?case
  proof (cases "n < 2")
    case True
    then show ?thesis by (subst toString2.simps) (simp add: is_bit_bit_char)
  next
    case False
    then show ?thesis using 1 by (subst toString2.simps) (simp add: is_bit_bit_char)
  qed
qed

lemma toString2_not_Nil: "toString2 n \<noteq> []"
  by (subst toString2.simps) simp

lemma bin_value_snoc: "bin_value a (s @ [c]) = 2 * bin_value a s + (of_char c - 48)"
  by (simp add: bin_value_def)

lemma bin_value_toString2: "bin_value 0 (toString2 n) = n"
proof (induction n rule: toString2.induct)
  case (1 n)
  show ?case
  proof (cases "n < 2")
    case True
    then show ?thesis
      by (subst toString2.simps) (auto simp: bin_value_def digit_bit_char)
  next
    case False
    then have "bin_value 0 (toString2 n) = 2 * (n div 2) + (if n mod 2 = 0 then 0 else 1)"
      using 1 by (subst toString2.simps) (simp add: bin_value_snoc digit_bit_char)
    then show ?thesis by presburger
  qed
qed

lemma bin_value_zeros: "bin_value 0 (replicate k CHR ''0'' @ s) = bin_value 0 s"
  by (induction k) (simp_all add: bin_value_def)

lemma length_toString2: "0 < k \<Longrightarrow> n < 2 ^ k \<Longrightarrow> length (toString2 n) \<le> k"
proof (induction n arbitrary: k rule: toString2.induct)
  case (1 n)
  show ?case
  proof (cases "n < 2")
    case True
    then show ?thesis using "1.prems" by (subst toString2.simps) simp
  next
    case False
    with "1.prems" have k: "1 < k"
      by (metis One_nat_def Suc_lessI power_one_right)
    then obtain k' where k': "k = Suc k'" "0 < k'" by (cases k) auto
    have "n div 2 < 2 ^ k'" using "1.prems"(2) k' by auto
    then have "length (toString2 (n div 2)) \<le> k'"
      using "1.IH"[OF False k'(2)] by simp
    then show ?thesis using False k' by (subst toString2.simps) simp
  qed
qed

lemma parseInt_bits:
  assumes "list_all is_bit s" and "s \<noteq> []"
  shows "parseInt 2 s = Some (bin_value 0 s)"
proof -
  have tw: "takeWhile (digit_below 2) s = s"
    using assms(1) by (auto simp: takeWhile_eq_all_conv list_all_iff is_bit_digit)
  show ?thesis using assms(2) unfolding parseInt_def bin_value_def tw by simp
qed

lemma padStart_bits: "list_all is_bit s \<Longrightarrow> list_all is_bit (padStart k CHR ''0'' s)"
proof -
  have "is_bit CHR ''0''" by (simp add: is_bit_def)
  then show "list_all is_bit s \<Longrightarrow> list_all is_bit (padStart k CHR ''0'' s)"
    by (auto simp: padStart_def list_all_iff)
qed

lemma length_padStart: "length (padStart k c s) = max k (length s)"
  by (simp add: padStart_def)

lemma parseInt_padStart_toString2: "parseInt 2 (padStart k CHR ''0'' (toString2 n)) = Some n"
proof -
  have "parseInt 2 (padStart k CHR ''0'' (toString2 n))
      = Some (bin_value 0 (padStart k CHR ''0'' (toString2 n)))"
    by (intro parseInt_bits padStart_bits toString2_bits)
       (simp add: padStart_def toString2_not_Nil)
  then show ?thesis by (simp add: padStart_def bin_value_zeros bin_value_toString2)
qed

lemma length_byte_string: "length (byte_string b) = 8"
proof -
  have "unat b < 2 ^ 8" using unsigned_less[of b] by simp
  then have "length (toString2 (unat b)) \<le> 8" by (intro length_toString2) simp_all
  then show ?thesis by (simp add: byte_string_def length_padStart)
qed

lemma byte_string_bits: "list_all is_bit (byte_string b)"
  unfolding byte_string_def by (intro padStart_bits toString2_bits)

lemma parse_byte_string: "to_uint8 (parseInt 2 (byte_string b)) = b"
  by (simp add: byte_string_def parseInt_padStart_toString2 to_uint8_def)

lemma bytesToBinary_concat: "bytesToBinary bytes = concat (map byte_string bytes)"
  by (simp add: bytesToBinary_def)

lemma length_bytesToBinary: "length (bytesToBinary bytes) = 8 * length bytes"
  by (induction bytes) (simp_all add: bytesToBinary_concat length_byte_string)

lemma bytesToBinary_bits: "list_all is_bit (bytesToBinary bytes)"
  by (induction bytes) (simp_all add: bytesToBinary_concat byte_string_bits)

lemma slice_bytesToBinary:
  "k < length bytes \<Longrightarrow> slice (bytesToBinary bytes) (8 * k) (8 * k + 8) = byte_string (bytes ! k)"
proof (induction bytes arbitrary: k)
  case Nil
  then show ?case by simp
next
  case (Cons b bytes)
  show ?case
  proof (cases k)
    case 0
    then show ?thesis
      by (simp add: slice_def bytesToBinary_concat length_byte_string)
  next
    case (Suc k')
    then have "slice (bytesToBinary bytes) (8 * k') (8 * k' + 8) = byte_string (bytes ! k')"
      using Cons by simp
    then show ?thesis using Suc
      by (simp add: slice_def bytesToBinary_concat length_byte_string)
  qed
qed

subsection \<open>Repacking\<close>

lemma binaryToBytes_loop_from:
  assumes "length bytes = length bin div 8" and "k \<le> length bin div 8"
  shows "binaryToBytes_loop (8 * k) bin bytes
         = take k bytes @ map (byte_at bin) [k..<length bin div 8]"
  using assms
proof (induction "length bin div 8 - k" arbitrary: k bytes)
  case 0
  then have k: "k = length bin div 8" by simp
  have stop: "\<not> 8 * k + 8 < length bin" unfolding k by presburger
  have "binaryToBytes_loop (8 * k) bin bytes = bytes"
  proof (cases "8 * k < length bin")
    case True
    have "binaryToBytes_loop (8 * k) bin bytes
          = binaryToBytes_loop (8 * k + 8) bin
              (bytes[k := to_uint8 (parseInt 2 (slice bin (8 * k) (8 * k + 8)))])"
      using True by (subst binaryToBytes_loop.simps) simp
    also have "\<dots> = bytes[k := to_uint8 (parseInt 2 (slice bin (8 * k) (8 * k + 8)))]"
      using stop by (subst binaryToBytes_loop.simps) simp
    also have "\<dots> = bytes" using 0(2) k by (simp add: list_update_beyond)
    finally show ?thesis .
  next
    case False
    then show ?thesis by (subst binaryToBytes_loop.simps) simp
  qed
  then show ?case using 0(2) k by simp
next
  case (Suc d)
  then have k: "k < length bin div 8" by simp
  then have lt: "8 * k < length bin" by presburger
  have s8: "8 * k + 8 = 8 * Suc k" by simp
  have "binaryToBytes_loop (8 * k) bin bytes
        = binaryToBytes_loop (8 * k + 8) bin (bytes[k := byte_at bin k])"
    using lt by (subst binaryToBytes_loop.simps) (simp only: byte_at_def if_True div_mult_self1_is_m zero_less_numeral)
  also have "\<dots> = binaryToBytes_loop (8 * Suc k) bin (bytes[k := byte_at bin k])"
    by (simp only: s8)
  also have "\<dots> = take (Suc k) (bytes[k := byte_at bin k]) @ map (byte_at bin) [Suc k..<length bin div 8]"
    using Suc k by (intro Suc.hyps(1)) simp_all
  also have "take (Suc k) (bytes[k := byte_at bin k]) = take k bytes @ [byte_at bin k]"
    using k Suc.prems(1) by (simp add: take_Suc_conv_app_nth)
  finally show ?case using k by (simp add: upt_conv_Cons)
qed

lemma binaryToBytes_eq: "binaryToBytes bin = map (byte_at bin) [0..<length bin div 8]"
  using binaryToBytes_loop_from[of "replicate (length bin div 8) 0" bin 0]
  by (simp add: binaryToBytes_def)

lemma length_binaryToBytes: "length (binaryToBytes bin) = length bin div 8"
  by (simp add: binaryToBytes_eq)

lemma binaryToBytes_bytesToBinary: "binaryToBytes (bytesToBinary bytes) = bytes"
proof -
  have "map (byte_at (bytesToBinary bytes)) [0..<length bytes] = map ((!) bytes) [0..<length bytes]"
    by (intro map_cong refl) (simp add: byte_at_def slice_bytesToBinary parse_byte_string)
  then show ?thesis
    by (simp add: binaryToBytes_eq length_bytesToBinary map_nth)
qed

section \<open>Properties of the pixel codec\<close>

lemma availableIndices_of_Suc:
  "availableIndices_of (Suc n) = availableIndices_of n @ (if (n + 1) mod 4 \<noteq> 0 then [n] else [])"
  by (simp add: availableIndices_of_def)

lemma length_availableIndices_of: "length (availableIndices_of n) = n - n div 4"
proof -
  have "length (availableIndices_of n) + n div 4 = n"
  proof (induction n)
    case 0
    then show ?case by (simp add: availableIndices_of_def)
  next
    case (Suc n)
    have "Suc n div 4 = n div 4 + (if (n + 1) mod 4 \<noteq> 0 then 0 else 1)"
      by presburger
    with Suc show ?case by (simp add: availableIndices_of_Suc)
  qed
  then show ?thesis by simp
qed

lemma set_availableIndices_of: "set (availableIndices_of n) = {i. i < n \<and> i mod 4 \<noteq> 3}"
proof -
  have "(i + 1) mod 4 \<noteq> 0 \<longleftrightarrow> i mod 4 \<noteq> 3" for i :: nat by presburger
  then show ?thesis by (auto simp: availableIndices_of_def)
qed

lemma distinct_availableIndices_of: "distinct (availableIndices_of n)"
  by (simp add: availableIndices_of_def)

subsection \<open>Writing and reading least significant bits\<close>

lemma parseInt_10_bit: "is_bit c \<Longrightarrow> to_uint8 (parseInt 10 [c]) = (if c = CHR ''1'' then 1 else 0)"
  by (auto simp: is_bit_def parseInt_def digit_below_def to_uint8_def)

lemma set_lsb_low: "is_bit c \<Longrightarrow> bit_char (unat (set_lsb v c AND 1)) = c"
proof -
  have a: "((v AND 0xfe) OR 1) AND 1 = (1 :: 8 word)"
    by (simp add: bit.conj_disj_distrib2)
  have b: "(v AND 0xfe) AND 1 = (0 :: 8 word)"
    by (simp add: and.assoc)
  show "is_bit c \<Longrightarrow> bit_char (unat (set_lsb v c AND 1)) = c"
    by (auto simp: set_lsb_def parseInt_10_bit a b bit_char_def is_bit_def)
qed

lemma set_lsb_high: "is_bit c \<Longrightarrow> drop_bit 1 (set_lsb v c) = drop_bit 1 v"
proof -
  have m: "(127 :: 8 word) = mask 7"
    by (simp add: mask_eq_exp_minus_1)
  have k: "drop_bit (Suc 0) v AND 127 = drop_bit (Suc 0) (v :: 8 word)"
    unfolding m by (rule bit_word_eqI) (auto simp: bit_simps dest: bit_imp_le_length)
  show "is_bit c \<Longrightarrow> drop_bit 1 (set_lsb v c) = drop_bit 1 v"
    by (auto simp: set_lsb_def parseInt_10_bit k)
qed


lemma write_bits_fold: "write_bits slots bits d = fold (write_step slots bits) [0..<length bits] d"
  by (simp add: write_bits_def)

lemma fold_write_step:
  assumes "distinct slots" and "m \<le> length slots"
  shows "length (fold (write_step slots bits) [0..<m] d) = length d \<and>
         (\<forall>i<m. slots ! i < length d \<longrightarrow>
            fold (write_step slots bits) [0..<m] d ! (slots ! i) = set_lsb (d ! (slots ! i)) (bits ! i)) \<and>
         (\<forall>p. p \<notin> set (take m slots) \<longrightarrow> fold (write_step slots bits) [0..<m] d ! p = d ! p)"
  using assms(2)
proof (induction m)
  case 0
  then show ?case by simp
next
  case (Suc m)
  define d' where "d' = fold (write_step slots bits) [0..<m] d"
  have IH: "length d' = length d"
    "\<And>i. i < m \<Longrightarrow> slots ! i < length d \<Longrightarrow> d' ! (slots ! i) = set_lsb (d ! (slots ! i)) (bits ! i)"
    "\<And>p. p \<notin> set (take m slots) \<Longrightarrow> d' ! p = d ! p"
    using Suc by (simp_all add: d'_def)
  have m: "m < length slots" using Suc.prems by simp
  have step: "fold (write_step slots bits) [0..<Suc m] d = write_step slots bits m d'"
    by (simp add: d'_def)
  have fresh: "slots ! m \<notin> set (take m slots)"
  proof
    assume "slots ! m \<in> set (take m slots)"
    then obtain i where "i < m" "slots ! i = slots ! m"
      using m by (auto simp: in_set_conv_nth)
    then show False using assms(1) m by (simp add: nth_eq_iff_index_eq)
  qed
  have tk: "set (take (Suc m) slots) = insert (slots ! m) (set (take m slots))"
    using m by (simp add: take_Suc_conv_app_nth)
  have other: "slots ! i \<noteq> slots ! m" "slots ! m \<noteq> slots ! i" if "i < m" for i
    using that assms(1) m by (simp_all add: nth_eq_iff_index_eq)
  show ?case
    unfolding step tk
    using IH fresh other by (auto simp: write_step_def Let_def nth_list_update less_Suc_eq)
qed

lemma write_bits_props:
  assumes "distinct slots" and "length bits \<le> length slots"
  shows "length (write_bits slots bits d) = length d"
    and "\<And>i. i < length bits \<Longrightarrow> slots ! i < length d \<Longrightarrow>
           write_bits slots bits d ! (slots ! i) = set_lsb (d ! (slots ! i)) (bits ! i)"
    and "\<And>p. p \<notin> set (take (length bits) slots) \<Longrightarrow> write_bits slots bits d ! p = d ! p"
  using fold_write_step[OF assms, of bits d] by (simp_all add: write_bits_fold)

lemma read_bits_write_bits:
  assumes "distinct slots" and "length bits \<le> length slots"
    and "\<forall>p\<in>set slots. p < length d" and "list_all is_bit bits"
    and "lo \<le> hi" and "hi \<le> length bits"
  shows "read_bits (write_bits slots bits d) slots lo hi = take (hi - lo) (drop lo bits)"
proof (rule nth_equalityI)
  show "length (read_bits (write_bits slots bits d) slots lo hi) = length (take (hi - lo) (drop lo bits))"
    using assms(5,6) by (simp add: read_bits_def)
next
  fix k assume "k < length (read_bits (write_bits slots bits d) slots lo hi)"
  then have k: "k < hi - lo" by (simp add: read_bits_def)
  then have i: "lo + k < length bits" "lo + k < length slots"
    using assms(2,6) by simp_all
  then have p: "slots ! (lo + k) < length d" using assms(3) by simp
  have b: "is_bit (bits ! (lo + k))" using assms(4) i(1) by (simp add: list_all_length)
  have "lsb_char (write_bits slots bits d) slots (lo + k) = bits ! (lo + k)"
    using i p b write_bits_props[OF assms(1,2), where d = d]
    by (simp add: lsb_char_def set_lsb_low)
  then show "read_bits (write_bits slots bits d) slots lo hi ! k = take (hi - lo) (drop lo bits) ! k"
    using k i by (simp add: read_bits_def)
qed

lemma totalBits_of_eq:
  "totalBits_of payload =
     padStart 32 CHR ''0'' (toString2 (8 * length payload)) @ bytesToBinary payload"
  by (simp add: totalBits_of_def Let_def length_bytesToBinary)

lemma totalBits_of_bits: "list_all is_bit (totalBits_of payload)"
  by (simp add: totalBits_of_eq padStart_bits toString2_bits bytesToBinary_bits)

lemma length_header: "n < 2 ^ 32 \<Longrightarrow> length (padStart 32 CHR ''0'' (toString2 n)) = 32"
  using length_toString2[of 32 n] by (simp add: length_padStart)

lemma length_totalBits_of:
  "8 * length payload < 2 ^ 32 \<Longrightarrow> length (totalBits_of payload) = 32 + 8 * length payload"
  by (simp add: totalBits_of_eq length_header length_bytesToBinary)

lemma length_totalBits_of_ge: "32 + 8 * length payload \<le> length (totalBits_of payload)"
  by (simp add: totalBits_of_eq length_padStart length_bytesToBinary)

lemma shuffled_slots:
  "distinct (chaotic_shuffle sd (availableIndices_of n))"
  "\<forall>p\<in>set (chaotic_shuffle sd (availableIndices_of n)). p < n \<and> p mod 4 \<noteq> 3"
  "length (chaotic_shuffle sd (availableIndices_of n)) = length (availableIndices_of n)"
  by (simp_all add: distinct_chaotic_shuffle set_chaotic_shuffle length_chaotic_shuffle
      distinct_availableIndices_of set_availableIndices_of)

lemma encodeMessage_None:
  "length (totalBits_of payload) > length (availableIndices_of (length (data imageData)))
   \<Longrightarrow> encodeMessage imageData payload seed_arg = None"
  by (simp add: encodeMessage_def Let_def)

lemma encodeMessage_Some:
  "length (totalBits_of payload) \<le> length (availableIndices_of (length (data imageData)))
   \<Longrightarrow> encodeMessage imageData payload seed_arg =
       Some \<lparr>data = write_bits
                (chaotic_shuffle (seed_or_default DEFAULT_SEED seed_arg)
                   (availableIndices_of (length (data imageData))))
                (totalBits_of payload) (data imageData),
             width = width imageData, height = height imageData\<rparr>"
  by (simp add: encodeMessage_def Let_def)

lemma decode_after_encode:
  assumes fit: "length (totalBits_of payload) \<le> length (availableIndices_of (length (data imageData)))"
    and enc: "encodeMessage imageData payload seed_arg = Some encoded"
  shows "decode_slots encoded seed_arg =
           chaotic_shuffle (seed_or_default DEFAULT_SEED seed_arg)
             (availableIndices_of (length (data imageData)))"
    and "lo \<le> hi \<Longrightarrow> hi \<le> length (totalBits_of payload) \<Longrightarrow>
         read_bits (data encoded) (decode_slots encoded seed_arg) lo hi
           = take (hi - lo) (drop lo (totalBits_of payload))"
proof -
  define sl where "sl = chaotic_shuffle (seed_or_default DEFAULT_SEED seed_arg)
             (availableIndices_of (length (data imageData)))"
  have d: "data encoded = write_bits sl (totalBits_of payload) (data imageData)"
    using enc encodeMessage_Some[OF fit, of seed_arg] by (auto simp: sl_def)
  have sl: "distinct sl" "\<forall>p\<in>set sl. p < length (data imageData)"
    "length (totalBits_of payload) \<le> length sl"
    using shuffled_slots[of "seed_or_default DEFAULT_SEED seed_arg" "length (data imageData)"] fit
    by (simp_all add: sl_def)
  have len: "length (data encoded) = length (data imageData)"
    unfolding d by (rule write_bits_props(1)[OF sl(1,3)])
  show s: "decode_slots encoded seed_arg =
           chaotic_shuffle (seed_or_default DEFAULT_SEED seed_arg)
             (availableIndices_of (length (data imageData)))"
    by (simp add: decode_slots_def len)
  show "read_bits (data encoded) (decode_slots encoded seed_arg) lo hi
           = take (hi - lo) (drop lo (totalBits_of payload))"
    if "lo \<le> hi" "hi \<le> length (totalBits_of payload)"
    unfolding s sl_def[symmetric] d
    using sl that by (intro read_bits_write_bits totalBits_of_bits) simp_all
qed

lemma encode_then_decode:
  assumes "payload \<noteq> []" and "8 * length payload < 2 ^ 32"
    and "8 * length payload + 32 \<le> usable_slots imageData"
  shows "\<exists>encoded. encodeMessage imageData payload seed_arg = Some encoded \<and>
           decodeMessage encoded seed_arg = Some payload"
proof -
  have lb: "length (totalBits_of payload) = 32 + 8 * length payload"
    by (rule length_totalBits_of[OF assms(2)])
  have fit: "length (totalBits_of payload) \<le> length (availableIndices_of (length (data imageData)))"
    using assms(3) by (simp add: lb usable_slots_def)
  obtain encoded where enc: "encodeMessage imageData payload seed_arg = Some encoded"
    using encodeMessage_Some[OF fit] by blast
  note dec = decode_after_encode[OF fit enc]
  have sl: "length (decode_slots encoded seed_arg) = usable_slots imageData"
    by (simp add: dec(1) length_chaotic_shuffle usable_slots_def)
  have "read_bits (data encoded) (decode_slots encoded seed_arg) 0 32
        = take 32 (totalBits_of payload)"
    using dec(2)[of 0 32] by (simp add: lb)
  also have "\<dots> = padStart 32 CHR ''0'' (toString2 (8 * length payload))"
    by (simp add: totalBits_of_eq length_header[OF assms(2)])
  finally have hd: "decoded_length encoded seed_arg = Some (8 * length payload)"
    by (simp add: decoded_length_def parseInt_padStart_toString2)
  have "read_bits (data encoded) (decode_slots encoded seed_arg) 32 (32 + 8 * length payload)
        = take (8 * length payload) (drop 32 (totalBits_of payload))"
    using dec(2)[of 32 "32 + 8 * length payload"] by (simp add: lb)
  also have "\<dots> = bytesToBinary payload"
    by (simp add: totalBits_of_eq length_header[OF assms(2)] length_bytesToBinary)
  finally have pl: "read_bits (data encoded) (decode_slots encoded seed_arg) 32 (32 + 8 * length payload)
        = bytesToBinary payload" .
  have "decodeMessage encoded seed_arg = Some payload"
    using assms(1,3) by (simp add: decodeMessage_def Let_def hd pl sl binaryToBytes_bytesToBinary)
  with enc show ?thesis by blast
qed

lemma slice_take:
  assumes "k < n"
  shows "slice (take (8 * n) bin) (8 * k) (8 * k + 8) = slice bin (8 * k) (8 * k + 8)"
proof -
  have "8 \<le> 8 * n - 8 * k" using assms by simp
  then show ?thesis by (simp add: slice_def drop_take min_def)
qed

lemma binaryToBytes_whole_bytes:
  "binaryToBytes bin = binaryToBytes (take (8 * (length bin div 8)) bin)"
proof -
  have "map (byte_at bin) [0..<length bin div 8]
        = map (byte_at (take (8 * (length bin div 8)) bin)) [0..<length bin div 8]"
    by (intro map_cong refl) (simp add: byte_at_def slice_take)
  moreover have "length (take (8 * (length bin div 8)) bin) div 8 = length bin div 8"
    by (simp add: min_def)
  ultimately show ?thesis by (simp add: binaryToBytes_eq)
qed

lemma encodeAudioMessage_None:
  "length (totalBits_of payload) > numberOfChannels audioBuffer * length_samples audioBuffer
   \<Longrightarrow> encodeAudioMessage audioBuffer payload seed_arg = None"
  by (simp add: encodeAudioMessage_def Let_def)

lemma encodeAudioMessage_Some:
  "length (totalBits_of payload) \<le> numberOfChannels audioBuffer * length_samples audioBuffer
   \<Longrightarrow> encodeAudioMessage audioBuffer payload seed_arg =
       Some (write_sample_bits
               (chaotic_shuffle (seed_or_default AUDIO_DEFAULT_SEED seed_arg)
                  [0..<numberOfChannels audioBuffer * length_samples audioBuffer])
               (totalBits_of payload)
               (copy_channels audioBuffer
                  (createBuffer (numberOfChannels audioBuffer) (length_samples audioBuffer)
                     (sampleRate audioBuffer))))"
  by (simp add: encodeAudioMessage_def Let_def)

lemma chaotic_shuffle_empty: "chaotic_shuffle [] a = a"
  by (simp add: chaotic_shuffle_def)

lemma same_generator:
  assumes "char_code_sum seedA = char_code_sum seedB" and "char_code_sum seedA < 2 ^ 53"
  shows "SeededRandom_new seedA = SeededRandom_new seedB"
proof (rule SeededRandom.equality)
  show "seed (SeededRandom_new seedA) = seed (SeededRandom_new seedB)"
    using assms by (simp add: SeededRandom_new_exact)
qed simp

lemma same_shuffle:
  assumes "seedA \<noteq> []" and "seedB \<noteq> []"
    and "char_code_sum seedA = char_code_sum seedB" and "char_code_sum seedA < 2 ^ 53"
  shows "chaotic_shuffle seedA a = chaotic_shuffle seedB a"
  using assms(1,2) same_generator[OF assms(3,4)] by (simp add: chaotic_shuffle_def)

section \<open>Properties of the encoder on the store\<close>

lemma fold_write_at:
  "fold (\<lambda>i st. st\<lparr>arrays := (arrays st)(r := write_step slots bits i (arrays st r))\<rparr>) js st
   = st\<lparr>arrays := (arrays st)(r := fold (write_step slots bits) js (arrays st r))\<rparr>"
  by (induction js arbitrary: st) simp_all

lemma write_bits_at_eq:
  "write_bits_at r slots bits st = st\<lparr>arrays := (arrays st)(r := write_bits slots bits (arrays st r))\<rparr>"
  by (simp add: write_bits_at_def write_bits_def fold_write_at)

lemma encodeMessage_store_eq:
  "encodeMessage_store st imageData payload seed_arg =
     (if length (totalBits_of payload) > length (availableIndices_of (length (arrays st (data_ref imageData))))
      then (None, st)
      else (Some \<lparr>data_ref = next_ref st, width_of = width_of imageData,
                   height_of = height_of imageData\<rparr>,
            st\<lparr>arrays := (arrays st)
                  (next_ref st :=
                     write_bits
                       (chaotic_shuffle (seed_or_default DEFAULT_SEED seed_arg)
                          (availableIndices_of (length (arrays st (data_ref imageData)))))
                       (totalBits_of payload) (arrays st (data_ref imageData))),
               next_ref := Suc (next_ref st)\<rparr>))"
  by (simp add: encodeMessage_store_def Let_def new_Uint8ClampedArray_def write_bits_at_eq)

lemma encodeMessage_store_value:
  assumes "encodeMessage_store st imageData payload seed_arg = (res, st')"
  shows "map_option (\<lambda>e. \<lparr>data = arrays st' (data_ref e), width = width_of e, height = height_of e\<rparr>) res
         = encodeMessage \<lparr>data = arrays st (data_ref imageData), width = width_of imageData,
                           height = height_of imageData\<rparr> payload seed_arg"
  using assms by (auto simp: encodeMessage_store_eq encodeMessage_def Let_def split: if_splits)

lemma write_bits_frame:
  assumes "distinct slots" and "length bits \<le> length slots"
    and "\<forall>p\<in>set slots. p < length d \<and> p mod 4 \<noteq> 3" and "list_all is_bit bits"
    and "i < length d"
  shows "(i mod 4 = 3 \<longrightarrow> write_bits slots bits d ! i = d ! i) \<and>
         drop_bit 1 (write_bits slots bits d ! i) = drop_bit 1 (d ! i)"
proof (cases "i \<in> set (take (length bits) slots)")
  case False
  then have "write_bits slots bits d ! i = d ! i"
    by (rule write_bits_props(3)[OF assms(1,2)])
  then show ?thesis by simp
next
  case True
  then obtain k where k: "k < length bits" "k < length slots" "slots ! k = i"
    by (auto simp: in_set_conv_nth)
  then have "i \<in> set slots" by auto
  then have i: "i mod 4 \<noteq> 3" using assms(3) by blast
  have b: "is_bit (bits ! k)" using assms(4) k(1) by (simp add: list_all_length)
  have "write_bits slots bits d ! (slots ! k) = set_lsb (d ! (slots ! k)) (bits ! k)"
    using k assms(5) by (intro write_bits_props(2)[OF assms(1,2)]) simp_all
  then show ?thesis using i set_lsb_high[OF b, of "d ! i"] by (simp add: k(3))
qed

section \<open>Properties of the envelope\<close>

lemma getRandomValues_length: "length (fst (getRandomValues n tape)) = n"
  by (simp add: getRandomValues_def)

lemma pack_envelope:
  assumes "length salt = 16" and "length iv = 12"
  shows "(case uint8_set ((replicate (1 + length salt + length iv + length encrypted) 0)[0 := flag]) salt 1 of
            None \<Rightarrow> None
          | Some combined \<Rightarrow>
             (case uint8_set combined iv (1 + length salt) of
                None \<Rightarrow> None
              | Some combined \<Rightarrow>
                 (case uint8_set combined encrypted (1 + length salt + length iv) of
                    None \<Rightarrow> None
                  | Some combined \<Rightarrow> Some (combined, tape))))
         = Some (flag # salt @ iv @ encrypted, tape)"
proof -
  define n where "n = length encrypted"
  have c0: "(replicate (1 + length salt + length iv + length encrypted) 0)[0 := flag]
            = flag # replicate (28 + n) (0 :: 8 word)"
  proof -
    have "1 + length salt + length iv + length encrypted = Suc (28 + n)"
      using assms by (simp add: n_def)
    then show ?thesis by simp
  qed
  have s1: "uint8_set (flag # replicate (28 + n) 0) salt (Suc 0) = Some (flag # salt @ replicate (12 + n) 0)"
    using assms by (simp add: uint8_set_def)
  have s2: "uint8_set (flag # salt @ replicate (12 + n) 0) iv 17 = Some (flag # salt @ iv @ replicate n 0)"
    using assms by (simp add: uint8_set_def)
  have s3: "uint8_set (flag # salt @ iv @ replicate n 0) encrypted 29 = Some (flag # salt @ iv @ encrypted)"
    using assms by (simp add: uint8_set_def n_def)
  show ?thesis
    unfolding c0 using assms by (simp add: s1 s2 s3)
qed

lemma encryptData_eq:
  fixes pf tape dat password_arg compress_arg
  defines "password \<equiv> (case password_arg of None \<Rightarrow> DEFAULT_KEY | Some pw \<Rightarrow> pw)"
    and "compress \<equiv> (case compress_arg of None \<Rightarrow> True | Some c \<Rightarrow> c)"
    and "raw \<equiv> (case dat of Inl str \<Rightarrow> encode pf str | Inr b \<Rightarrow> b)"
    and "salt \<equiv> map tape [0..<16]"
    and "iv \<equiv> map tape [16..<28]"
  shows "encryptData pf tape dat password_arg compress_arg =
     Some ((if compress then 1 else 0) # salt @ iv @
             aes_gcm_encrypt pf (derive_key pf (encode pf password) salt ITERATIONS) iv
               (if compress then compressData pf raw else raw),
           \<lambda>i. tape (i + 28))"
proof -
  have "[16..<28] = map (\<lambda>i. i + 16) [0..<12]"
    by (simp only: map_add_upt) simp
  then have "map tape [16..<28] = map tape (map (\<lambda>i. i + 16) [0..<12])"
    by (rule arg_cong)
  then have iv: "map (\<lambda>i. tape (i + 16)) [0..<12] = iv"
    unfolding iv_def by (simp only: map_map comp_def)
  have l: "length salt = 16" "length iv = 12" by (simp_all add: salt_def iv_def)
  have t: "(\<lambda>i. tape (i + 12 + 16)) = (\<lambda>i. tape (i + 28))" by (simp add: add.assoc)
  show ?thesis
    unfolding encryptData_def getRandomValues_def SALT_SIZE_def IV_SIZE_def Let_def prod.case
      password_def[symmetric] compress_def[symmetric] raw_def[symmetric] salt_def[symmetric] iv t
    by (rule pack_envelope[OF l])
qed

section \<open>Properties of the audio codec\<close>

lemma quantize_low:
  "quantize 0 = 0" "quantize (one_level) = 0"
  by code_simp+

lemma embed_sample_low:
  "embed_sample 0 CHR ''0'' = 0"
  "embed_sample 0 CHR ''1'' = one_level"
  "embed_sample (one_level) CHR ''0'' = 0"
  "embed_sample (one_level) CHR ''1'' = one_level"
  by code_simp+

lemma embed_sample_in_low:
  "is_bit c \<Longrightarrow> x \<in> {0, one_level} \<Longrightarrow> embed_sample x c \<in> {0, one_level}"
  using embed_sample_low by (auto simp: is_bit_def)

lemma read_low: "x \<in> {0, one_level} \<Longrightarrow> bit_char (nat (quantize x AND 1)) = CHR ''0''"
  using quantize_low by (auto simp: bit_char_def)

lemma sample_index_mono: "g < 2 ^ 53 \<Longrightarrow> sample_index g (Suc 0) = g"
  using round_to_exact[of g 53] by (simp add: sample_index_def num_div_def Math_floor_def)

lemma write_sample_bits_fold:
  "write_sample_bits slots bits b = fold (write_sample_step slots bits) [0..<length bits] b"
  by (simp add: write_sample_bits_def)

lemma write_sample_step_low:
  assumes "low_buffer n b" and "n \<le> 2 ^ 53" and "slots ! i < n" and "is_bit (bits ! i)"
  shows "low_buffer n (write_sample_step slots bits i b)"
proof -
  obtain xs where b: "numberOfChannels b = 1" "length_samples b = n" "channelData b = [xs]"
    "length xs = n" "set xs \<subseteq> {0, one_level}"
    using assms(1) by (auto simp: low_buffer_def)
  define g where "g = slots ! i"
  have g: "g < n" "sample_index g (Suc 0) = g" "sample_channel g (Suc 0) = 0"
    using assms(2,3) by (simp_all add: g_def sample_index_mono sample_channel_def)
  have "xs ! g \<in> {0, one_level}" using b(4,5) g(1) by (meson nth_mem subsetD)
  then have e: "embed_sample (xs ! g) (bits ! i) \<in> {0, one_level}"
    by (rule embed_sample_in_low[OF assms(4)])
  have w: "write_sample_step slots bits i b
           = b\<lparr>channelData := [xs[g := embed_sample (xs ! g) (bits ! i)]]\<rparr>"
    by (simp add: write_sample_step_def Let_def b g g_def[symmetric])
  have "set (xs[g := embed_sample (xs ! g) (bits ! i)]) \<subseteq> {0, one_level}"
    using set_update_subset_insert[of xs g "embed_sample (xs ! g) (bits ! i)"] e b(5) by auto
  then show ?thesis
    unfolding w low_buffer_def using b by simp
qed

lemma fold_write_sample_step_low:
  assumes "n \<le> 2 ^ 53" and "\<forall>i\<in>set js. slots ! i < n \<and> is_bit (bits ! i)"
  shows "low_buffer n b \<Longrightarrow> low_buffer n (fold (write_sample_step slots bits) js b)"
  using assms(2)
proof (induction js arbitrary: b)
  case Nil
  then show ?case by simp
next
  case (Cons j js)
  then have "low_buffer n (write_sample_step slots bits j b)"
    by (intro write_sample_step_low assms(1)) simp_all
  then show ?case using Cons by simp
qed

lemma copy_silent:
  assumes "numberOfChannels A = 1" and "length_samples A = n" and "channelData A = [replicate n 0]"
  shows "low_buffer n (copy_channels A (createBuffer (numberOfChannels A) (length_samples A) (sampleRate A)))"
  using assms by (auto simp: copy_channels_def createBuffer_def low_buffer_def)

lemma bin_value_all_zero: "bin_value 0 (replicate k CHR ''0'') = 0"
  using bin_value_zeros[of k "[]"] by (simp add: bin_value_def)

lemma decode_low_buffer:
  assumes "low_buffer n b" and "n \<le> 2 ^ 53"
  shows "decodeAudioMessage b seed_arg = None"
proof -
  obtain xs where b: "numberOfChannels b = 1" "length_samples b = n" "channelData b = [xs]"
    "length xs = n" "set xs \<subseteq> {0, one_level}"
    using assms(1) by (auto simp: low_buffer_def)
  define sl where "sl = audio_decode_slots b seed_arg"
  have sl: "set sl = {0..<n}" "length sl = n"
    by (simp_all add: sl_def audio_decode_slots_def b set_chaotic_shuffle length_chaotic_shuffle)
  have "sample_lsb_char b sl i = CHR ''0''" for i
  proof (cases "i < length sl")
    case False
    then show ?thesis by (simp add: sample_lsb_char_def)
  next
    case True
    then have "sl ! i \<in> set sl" by simp
    then have g: "sl ! i < n" using sl(1) by simp
    then have "sample_index (sl ! i) (Suc 0) = sl ! i" "sample_channel (sl ! i) (Suc 0) = 0"
      using assms(2) by (simp_all add: sample_index_mono sample_channel_def)
    moreover have "xs ! (sl ! i) \<in> {0, one_level}"
      using b(4,5) g by (meson nth_mem subsetD)
    ultimately show ?thesis
      using True read_low by (simp add: sample_lsb_char_def Let_def b)
  qed
  then have "sample_lsb_char b sl = (\<lambda>_. CHR ''0'')"
    by (intro ext)
  then have "read_sample_bits b sl 0 32 = replicate 32 CHR ''0''"
    by (simp add: read_sample_bits_def map_replicate_const)
  moreover have "parseInt 2 (replicate 32 CHR ''0'') = Some 0"
    using parseInt_bits[of "replicate 32 CHR ''0''"] bin_value_all_zero[of 32]
    by (simp add: list_all_iff is_bit_def)
  ultimately show ?thesis
    by (simp add: decodeAudioMessage_def Let_def sl_def[symmetric])
qed

lemma silent_buffer_loses_payload:
  assumes "numberOfChannels A = 1" and "length_samples A = n" and "channelData A = [replicate n 0]"
    and "n \<le> 2 ^ 53" and "length (totalBits_of payload) \<le> n"
  shows "\<exists>encoded. encodeAudioMessage A payload seed_arg = Some encoded \<and>
           decodeAudioMessage encoded seed_arg = None"
proof -
  define sl where "sl = chaotic_shuffle (seed_or_default AUDIO_DEFAULT_SEED seed_arg) [0..<n]"
  define b0 where "b0 = copy_channels A (createBuffer (numberOfChannels A) (length_samples A) (sampleRate A))"
  have enc: "encodeAudioMessage A payload seed_arg = Some (write_sample_bits sl (totalBits_of payload) b0)"
    using assms(1,2,5) encodeAudioMessage_Some[of payload A seed_arg]
    by (simp add: sl_def b0_def)
  have sl: "set sl = {0..<n}" "length sl = n"
    by (simp_all add: sl_def set_chaotic_shuffle length_chaotic_shuffle)
  have "\<forall>i\<in>set [0..<length (totalBits_of payload)]. sl ! i < n \<and> is_bit (totalBits_of payload ! i)"
  proof
    fix i assume "i \<in> set [0..<length (totalBits_of payload)]"
    then have i: "i < length (totalBits_of payload)" by simp
    then have "sl ! i \<in> set sl" using assms(5) sl(2) by simp
    then show "sl ! i < n \<and> is_bit (totalBits_of payload ! i)"
      using sl(1) i totalBits_of_bits[of payload] by (simp add: list_all_length)
  qed
  then have "low_buffer n (write_sample_bits sl (totalBits_of payload) b0)"
    unfolding write_sample_bits_fold b0_def
    by (intro fold_write_sample_step_low[OF assms(4)] copy_silent[OF assms(1,2,3)])
  then have "decodeAudioMessage (write_sample_bits sl (totalBits_of payload) b0) seed_arg = None"
    by (rule decode_low_buffer[OF _ assms(4)])
  with enc show ?thesis by blast
qed

subsection \<open>Payloads of \<open>2\<^sup>3\<^sup>2\<close> bits\<close>

text \<open>
  The length of such a payload has 33 binary digits, which \<open>padStart\<close> keeps, while
  \<open>decodeMessage\<close> reads 32: it takes the length to be \<open>2\<^sup>3\<^sup>1\<close> and returns half of the
  bytes.
\<close>

lemma toString2_power: "toString2 (2 ^ k) = CHR ''1'' # replicate k CHR ''0''"
proof (induction k)
  case 0
  show ?case by (subst toString2.simps) (simp add: bit_char_def)
next
  case (Suc k)
  have "toString2 (2 ^ Suc k) = toString2 (2 ^ k) @ [CHR ''0'']"
    by (subst toString2.simps) (simp add: bit_char_def)
  then show ?case by (simp add: Suc replicate_append_same)
qed

lemma length_read_bits: "length (read_bits d sl lo hi) = hi - lo"
  by (simp add: read_bits_def)

lemma decodeMessage_valid:
  assumes "decoded_length imageData seed_arg = Some L"
    and "0 < L" and "L + 32 \<le> usable_slots imageData"
  shows "decodeMessage imageData seed_arg =
     Some (binaryToBytes (read_bits (data imageData) (decode_slots imageData seed_arg) 32 (32 + L)))"
proof -
  have "length (decode_slots imageData seed_arg) = usable_slots imageData"
    by (simp add: decode_slots_def length_chaotic_shuffle usable_slots_def)
  then show ?thesis using assms by (simp add: decodeMessage_def Let_def)
qed

lemma header_of_long_payload:
  "parseInt 2 (CHR ''1'' # replicate 31 CHR ''0'') = Some (2 ^ 31)"
  using parseInt_padStart_toString2[of 0 "2 ^ 31"]
  unfolding toString2_power by (simp add: padStart_def)

lemma long_payload_not_recovered:
  assumes len: "length payload = 2 ^ 29"
    and fit: "2 ^ 32 + 33 \<le> usable_slots imageData"
  shows "\<exists>encoded bytes. encodeMessage imageData payload seed_arg = Some encoded \<and>
           decodeMessage encoded seed_arg = Some bytes \<and> length bytes = 2 ^ 28 \<and>
           bytes \<noteq> payload"
proof -
  have bits: "8 * length payload = 2 ^ 32" unfolding len by simp
  have tb: "totalBits_of payload = (CHR ''1'' # replicate 32 CHR ''0'') @ bytesToBinary payload"
    unfolding totalBits_of_eq bits toString2_power by (simp add: padStart_def)
  have ltb: "length (totalBits_of payload) = 2 ^ 32 + 33"
    unfolding tb by (simp add: length_bytesToBinary bits)
  have fit': "length (totalBits_of payload) \<le> length (availableIndices_of (length (data imageData)))"
    using fit unfolding ltb usable_slots_def .
  obtain encoded where enc: "encodeMessage imageData payload seed_arg = Some encoded"
    using encodeMessage_Some[OF fit'] by blast
  note dec = decode_after_encode[OF fit' enc]
  have us: "usable_slots encoded = usable_slots imageData"
    using arg_cong[OF dec(1), of length]
    by (simp add: decode_slots_def length_chaotic_shuffle usable_slots_def)
  have "(32 :: nat) \<le> length (totalBits_of payload)" unfolding ltb by simp
  then have "read_bits (data encoded) (decode_slots encoded seed_arg) 0 32
        = take 32 (totalBits_of payload)"
    using dec(2)[of 0 32] by simp
  also have "\<dots> = CHR ''1'' # replicate 31 CHR ''0''"
    unfolding tb by simp
  finally have hd: "decoded_length encoded seed_arg = Some (2 ^ 31)"
    by (simp only: decoded_length_def header_of_long_payload)
  have v: "(0 :: nat) < 2 ^ 31" "(2 :: nat) ^ 31 + 32 \<le> usable_slots encoded"
    using fit unfolding us by simp_all
  define bytes where "bytes = binaryToBytes
     (read_bits (data encoded) (decode_slots encoded seed_arg) 32 (32 + 2 ^ 31))"
  have d: "decodeMessage encoded seed_arg = Some bytes"
    unfolding bytes_def by (rule decodeMessage_valid[OF hd v])
  have l: "length bytes = 2 ^ 28"
    unfolding bytes_def length_binaryToBytes length_read_bits by simp
  then have "bytes \<noteq> payload" using len by auto
  with enc d l show ?thesis by blast
qed

subsection \<open>Repacking returns the bits it was given\<close>

lemma bin_value_inject:
  "list_all is_bit s \<Longrightarrow> list_all is_bit t \<Longrightarrow> length s = length t \<Longrightarrow>
   bin_value a s = bin_value a t \<Longrightarrow> s = t"
proof (induction s arbitrary: t rule: rev_induct)
  case Nil
  then show ?case by simp
next
  case (snoc c s)
  then obtain t' d where t: "t = t' @ [d]"
    by (cases t rule: rev_cases) auto
  have cd: "is_bit c" "is_bit d" using snoc.prems(1,2) by (simp_all add: t)
  have e: "2 * bin_value a s + (of_char c - 48) = 2 * bin_value a t' + (of_char d - 48)"
    using snoc.prems(4) by (simp add: t bin_value_snoc)
  have dig: "(of_char c :: nat) - 48 \<le> 1" "(of_char d :: nat) - 48 \<le> 1"
    using cd by (auto simp: is_bit_def)
  have "(of_char c :: nat) - 48 = of_char d - 48" using e dig by presburger
  then have c: "c = d" using cd by (auto simp: is_bit_def)
  have "bin_value a s = bin_value a t'" using e c by simp
  then have "s = t'"
    using snoc.prems(1,2,3) by (intro snoc.IH) (simp_all add: t)
  then show ?case by (simp add: t c)
qed

lemma bin_value_less: "list_all is_bit s \<Longrightarrow> bin_value 0 s < 2 ^ length s"
proof (induction s rule: rev_induct)
  case Nil
  then show ?case by (simp add: bin_value_def)
next
  case (snoc c s)
  then have "bin_value 0 s < 2 ^ length s" and "is_bit c" by simp_all
  moreover from \<open>is_bit c\<close> have "(of_char c :: nat) - 48 \<le> 1" by (auto simp: is_bit_def)
  ultimately show ?case by (simp add: bin_value_snoc)
qed

lemma toString2_bin_value:
  assumes "list_all is_bit s" and "s \<noteq> []"
  shows "padStart (length s) CHR ''0'' (toString2 (bin_value 0 s)) = s"
proof (rule bin_value_inject[where a = 0])
  have k: "0 < length s" using assms(2) by simp
  have l: "length (toString2 (bin_value 0 s)) \<le> length s"
    by (rule length_toString2[OF k bin_value_less[OF assms(1)]])
  show "list_all is_bit (padStart (length s) CHR ''0'' (toString2 (bin_value 0 s)))"
    by (intro padStart_bits toString2_bits)
  show "list_all is_bit s" by (rule assms(1))
  show "length (padStart (length s) CHR ''0'' (toString2 (bin_value 0 s))) = length s"
    using l by (simp add: length_padStart)
  show "bin_value 0 (padStart (length s) CHR ''0'' (toString2 (bin_value 0 s))) = bin_value 0 s"
    by (simp add: padStart_def bin_value_zeros bin_value_toString2)
qed

lemma byte_string_parse:
  assumes "list_all is_bit s" and "length s = 8"
  shows "byte_string (to_uint8 (parseInt 2 s)) = s"
proof -
  have ne: "s \<noteq> []" using assms(2) by auto
  have "bin_value 0 s < 2 ^ 8" using bin_value_less[OF assms(1)] by (simp add: assms(2))
  then have u: "unat (of_nat (bin_value 0 s) :: 8 word) = bin_value 0 s"
    by (simp add: unat_of_nat)
  show ?thesis
    using toString2_bin_value[OF assms(1) ne]
    by (simp add: parseInt_bits[OF assms(1) ne] to_uint8_def byte_string_def u assms(2))
qed

lemma concat_slices:
  "8 * n \<le> length bin \<Longrightarrow>
   concat (map (\<lambda>k. slice bin (8 * k) (8 * k + 8)) [0..<n]) = take (8 * n) bin"
proof (induction n)
  case 0
  then show ?case by simp
next
  case (Suc n)
  have "take (8 * Suc n) bin = take (8 * n) bin @ take 8 (drop (8 * n) bin)"
    using take_add[of "8 * n" 8 bin] by (simp add: add.commute)
  then show ?case using Suc by (simp add: slice_def)
qed

lemma bytesToBinary_binaryToBytes:
  assumes "list_all is_bit bin"
  shows "bytesToBinary (binaryToBytes bin) = take (8 * (length bin div 8)) bin"
proof -
  have "byte_string (byte_at bin k) = slice bin (8 * k) (8 * k + 8)"
    if "k < length bin div 8" for k
  proof -
    have "8 * k + 8 \<le> length bin" using that by presburger
    then have l: "length (slice bin (8 * k) (8 * k + 8)) = 8" by (simp add: slice_def)
    have b: "list_all is_bit (slice bin (8 * k) (8 * k + 8))"
      using assms by (auto simp: slice_def list_all_iff dest!: in_set_takeD in_set_dropD)
    show ?thesis unfolding byte_at_def by (rule byte_string_parse[OF b l])
  qed
  then have "map byte_string (map (byte_at bin) [0..<length bin div 8])
        = map (\<lambda>k. slice bin (8 * k) (8 * k + 8)) [0..<length bin div 8]"
    by (simp add: comp_def)
  moreover have "8 * (length bin div 8) \<le> length bin" by simp
  ultimately show ?thesis
    by (simp only: bytesToBinary_def binaryToBytes_eq concat_slices)
qed

lemma lsb_char_bit: "is_bit (lsb_char d sl i)"
  by (simp add: lsb_char_def is_bit_bit_char) (simp add: is_bit_def)

lemma read_bits_are_bits: "list_all is_bit (read_bits d sl lo hi)"
  by (simp add: read_bits_def list_all_iff lsb_char_bit)

section \<open>Claims about the codec\<close>

text \<open>
  C1. Pixel round-trip, as the code has it: for every pixel carrier, every seed argument
  (a seed string, the empty string or none) and every payload that is not empty, has
  fewer than \<open>2\<^sup>3\<^sup>2\<close> bits and fits (its bit length plus 32 is at most the number of
  usable slots), \<open>encodeMessage\<close> returns a carrier and \<open>decodeMessage\<close> of that carrier
  with the same seed argument returns exactly the payload.
\<close>

theorem C1_pixel_round_trip:
  assumes "payload \<noteq> []" and "8 * length payload < 2 ^ 32"
    and "8 * length payload + 32 \<le> usable_slots imageData"
  shows "\<exists>encoded. encodeMessage imageData payload seed_arg = Some encoded \<and>
           decodeMessage encoded seed_arg = Some payload"
proof -
  from encode_then_decode[OF assms, of seed_arg]
  obtain encoded where "encodeMessage imageData payload seed_arg = Some encoded"
    and "decodeMessage encoded seed_arg = Some payload"
    by blast
  then show ?thesis by blast
qed

theorem C1_pixel_round_trip_witness:
  "[65 :: 8 word] \<noteq> [] \<and> 8 * length [65 :: 8 word] < (2 :: nat) ^ 32 \<and>
   8 * length [65 :: 8 word] + 32 \<le> usable_slots \<lparr>data = replicate 56 0, width = 7, height = 2\<rparr> \<and>
   (\<exists>encoded. encodeMessage \<lparr>data = replicate 56 0, width = 7, height = 2\<rparr> [65]
                 (Some (js_string_of ''k'')) = Some encoded \<and>
              decodeMessage encoded (Some (js_string_of ''k'')) = Some [65])"
proof -
  have u: "usable_slots \<lparr>data = replicate 56 0, width = 7, height = 2\<rparr> = 42"
    by code_simp
  show ?thesis
    using C1_pixel_round_trip[of "[65]" "\<lparr>data = replicate 56 0, width = 7, height = 2\<rparr>"
        "Some (js_string_of ''k'')"]
    by (simp add: u)
qed

text \<open>
  The round trip fails for the empty payload, which satisfies the capacity condition:
  its length header is 0, and \<open>decodeMessage\<close> rejects a header that is not positive.
\<close>

theorem C1_empty_payload_counterexample:
  "8 * length ([] :: 8 word list) + 32 \<le> usable_slots \<lparr>data = replicate 48 0, width = 6, height = 2\<rparr> \<and>
   encodeMessage \<lparr>data = replicate 48 0, width = 6, height = 2\<rparr> [] (Some [])
     = Some \<lparr>data = replicate 48 0, width = 6, height = 2\<rparr> \<and>
   decodeMessage \<lparr>data = replicate 48 0, width = 6, height = 2\<rparr> (Some []) = None"
proof -
  have u: "usable_slots \<lparr>data = replicate 48 0, width = 6, height = 2\<rparr> = 36"
    by code_simp
  have e: "encodeMessage \<lparr>data = replicate 48 0, width = 6, height = 2\<rparr> [] (Some [])
     = Some \<lparr>data = replicate 48 0, width = 6, height = 2\<rparr>"
    by code_simp
  have d: "decodeMessage \<lparr>data = replicate 48 0, width = 6, height = 2\<rparr> (Some []) = None"
    by code_simp
  show ?thesis using e d by (simp add: u)
qed

text \<open>
  C5. Byte-boundary tolerance on extraction: for every carrier and seed argument for which
  the decoded length header \<open>L\<close> passes the validation of \<open>decodeMessage\<close> (it is
  positive and at most the number of usable slots minus 32), \<open>decodeMessage\<close> returns a
  byte sequence, also when \<open>L\<close> is not a multiple of 8: the sequence has \<open>L div 8\<close> bytes,
  and the bits of these bytes, most significant first, are exactly the first
  \<open>8 * (L div 8)\<close> of the \<open>L\<close> bits extracted from the slots 32 to \<open>32 + L - 1\<close>.
\<close>

theorem C5_byte_boundary_tolerated:
  assumes "decoded_length imageData seed_arg = Some L"
    and "0 < L" and "int L \<le> int (usable_slots imageData) - 32"
  shows "\<exists>bytes. decodeMessage imageData seed_arg = Some bytes \<and>
           length bytes = L div 8 \<and>
           bytesToBinary bytes =
             take (8 * (L div 8))
               (read_bits (data imageData) (decode_slots imageData seed_arg) 32 (32 + L)) \<and>
           bytes = binaryToBytes (take (8 * (L div 8))
                     (read_bits (data imageData) (decode_slots imageData seed_arg) 32 (32 + L)))"
proof -
  define bin where "bin = read_bits (data imageData) (decode_slots imageData seed_arg) 32 (32 + L)"
  have len: "length bin = L" by (simp add: bin_def read_bits_def)
  have bits: "list_all is_bit bin" unfolding bin_def by (rule read_bits_are_bits)
  have sl: "length (decode_slots imageData seed_arg) = usable_slots imageData"
    by (simp add: decode_slots_def length_chaotic_shuffle usable_slots_def)
  have "decodeMessage imageData seed_arg = Some (binaryToBytes bin)"
    using assms by (simp add: decodeMessage_def Let_def sl bin_def)
  moreover have "length (binaryToBytes bin) = L div 8"
    by (simp add: length_binaryToBytes len)
  moreover have "bytesToBinary (binaryToBytes bin) = take (8 * (L div 8)) bin"
    using bytesToBinary_binaryToBytes[OF bits] by (simp add: len)
  moreover have "binaryToBytes bin = binaryToBytes (take (8 * (L div 8)) bin)"
    using binaryToBytes_whole_bytes[of bin] by (simp add: len)
  ultimately show ?thesis unfolding bin_def by blast
qed

theorem C5_byte_boundary_tolerated_witness:
  "decoded_length
     \<lparr>data = (replicate 60 0)[37 := 1, 40 := 1, 42 := 1, 45 := 1, 49 := 1, 52 := 1, 53 := 1],
       width = 5, height = 3\<rparr> (Some [])
     = Some 10 \<and>
   (0 :: nat) < 10 \<and>
   int 10 \<le> int (usable_slots
     \<lparr>data = (replicate 60 0)[37 := 1, 40 := 1, 42 := 1, 45 := 1, 49 := 1, 52 := 1, 53 := 1],
       width = 5, height = 3\<rparr>) - 32 \<and>
   read_bits (data
     \<lparr>data = (replicate 60 0)[37 := 1, 40 := 1, 42 := 1, 45 := 1, 49 := 1, 52 := 1, 53 := 1],
       width = 5, height = 3\<rparr>)
     (decode_slots
     \<lparr>data = (replicate 60 0)[37 := 1, 40 := 1, 42 := 1, 45 := 1, 49 := 1, 52 := 1, 53 := 1],
       width = 5, height = 3\<rparr> (Some [])) 32 (32 + 10) = ''1010010110'' \<and>
   decodeMessage
     \<lparr>data = (replicate 60 0)[37 := 1, 40 := 1, 42 := 1, 45 := 1, 49 := 1, 52 := 1, 53 := 1],
       width = 5, height = 3\<rparr> (Some [])
     = Some [165] \<and>
   length [165 :: 8 word] = 10 div 8 \<and>
   bytesToBinary [165] = ''10100101''"
proof -
  define P where "P = \<lparr>data = (replicate 60 0)[37 := 1, 40 := 1, 42 := 1, 45 := 1, 49 := 1, 52 := 1, 53 := 1],
       width = 5, height = 3\<rparr>"
  have l: "decoded_length P (Some []) = Some 10"
    unfolding P_def by code_simp
  have u: "usable_slots P = 45"
    unfolding P_def by code_simp
  have r: "read_bits (data P) (decode_slots P (Some [])) 32 (32 + 10) = ''1010010110''"
    unfolding P_def by code_simp
  have d: "decodeMessage P (Some []) = Some [165]"
    unfolding P_def by code_simp
  have v: "int 10 \<le> int (usable_slots P) - 32"
    by (simp add: u)
  obtain bytes where b: "decodeMessage P (Some []) = Some bytes" "length bytes = 10 div 8"
    "bytesToBinary bytes = take (8 * (10 div 8)) (read_bits (data P) (decode_slots P (Some [])) 32 (32 + 10))"
    using C5_byte_boundary_tolerated[OF l _ v] by auto
  have e: "bytes = [165]" using b(1) d by simp
  have "length [165 :: 8 word] = 10 div 8" using b(2) unfolding e .
  moreover have "bytesToBinary [165] = ''10100101''"
    using b(3) unfolding e r by simp
  moreover have "(0 :: nat) < 10" by simp
  ultimately show ?thesis
    using l v r d unfolding P_def by blast
qed

text \<open>
  C6. Capacity boundary: when the length of the bit stream (the header followed by the
  payload bits) equals the number of usable slots, \<open>encodeMessage\<close> returns a carrier;
  when it exceeds that number, \<open>encodeMessage\<close> returns the sentinel \<open>None\<close> (null);
  \<open>encodeAudioMessage\<close> does the same with the capacity \<open>numberOfChannels * length\<close>.
  The header has 32 bits, so the bit stream has 32 bits more than the payload, for every
  payload of fewer than \<open>2\<^sup>3\<^sup>2\<close> bits. No branch of either function throws.
\<close>

theorem C6_capacity_boundary:
  "(length (totalBits_of payload) = usable_slots imageData \<longrightarrow>
      (\<exists>encoded. encodeMessage imageData payload seed_arg = Some encoded)) \<and>
   (length (totalBits_of payload) > usable_slots imageData \<longrightarrow>
      encodeMessage imageData payload seed_arg = None) \<and>
   (length (totalBits_of payload) = numberOfChannels audioBuffer * length_samples audioBuffer \<longrightarrow>
      (\<exists>encoded. encodeAudioMessage audioBuffer payload seed_arg = Some encoded)) \<and>
   (length (totalBits_of payload) > numberOfChannels audioBuffer * length_samples audioBuffer \<longrightarrow>
      encodeAudioMessage audioBuffer payload seed_arg = None) \<and>
   (8 * length payload < 2 ^ 32 \<longrightarrow> length (totalBits_of payload) = 32 + 8 * length payload)"
proof (intro conjI impI)
  assume "length (totalBits_of payload) = usable_slots imageData"
  then show "\<exists>encoded. encodeMessage imageData payload seed_arg = Some encoded"
    using encodeMessage_Some[of payload imageData seed_arg] by (simp add: usable_slots_def)
next
  assume "length (totalBits_of payload) > usable_slots imageData"
  then show "encodeMessage imageData payload seed_arg = None"
    by (intro encodeMessage_None) (simp add: usable_slots_def)
next
  assume "length (totalBits_of payload) = numberOfChannels audioBuffer * length_samples audioBuffer"
  then show "\<exists>encoded. encodeAudioMessage audioBuffer payload seed_arg = Some encoded"
    using encodeAudioMessage_Some[of payload audioBuffer seed_arg] by simp
next
  assume "length (totalBits_of payload) > numberOfChannels audioBuffer * length_samples audioBuffer"
  then show "encodeAudioMessage audioBuffer payload seed_arg = None"
    by (rule encodeAudioMessage_None)
next
  assume "8 * length payload < 2 ^ 32"
  then show "length (totalBits_of payload) = 32 + 8 * length payload"
    by (rule length_totalBits_of)
qed

theorem C6_capacity_boundary_witness:
  "length (data \<lparr>data = replicate 64 0, width = 4, height = 4\<rparr>) = 4 * width \<lparr>data = replicate 64 0, width = 4, height = 4\<rparr> * height \<lparr>data = replicate 64 0, width = 4, height = 4\<rparr> \<and>
   length (totalBits_of [65, 66]) = usable_slots \<lparr>data = replicate 64 0, width = 4, height = 4\<rparr> \<and>
   (\<exists>encoded. encodeMessage \<lparr>data = replicate 64 0, width = 4, height = 4\<rparr> [65, 66] None = Some encoded) \<and>
   length (data \<lparr>data = replicate 48 0, width = 6, height = 2\<rparr>) = 4 * width \<lparr>data = replicate 48 0, width = 6, height = 2\<rparr> * height \<lparr>data = replicate 48 0, width = 6, height = 2\<rparr> \<and>
   length (totalBits_of [65]) > usable_slots \<lparr>data = replicate 48 0, width = 6, height = 2\<rparr> \<and>
   encodeMessage \<lparr>data = replicate 48 0, width = 6, height = 2\<rparr> [65] None = None \<and>
   length (totalBits_of [65, 66]) =
     numberOfChannels
       \<lparr>numberOfChannels = 2, length_samples = 24, sampleRate = 44100,
        channelData = [replicate 24 0, replicate 24 0]\<rparr> *
     length_samples
       \<lparr>numberOfChannels = 2, length_samples = 24, sampleRate = 44100,
        channelData = [replicate 24 0, replicate 24 0]\<rparr> \<and>
   (\<exists>encoded. encodeAudioMessage
       \<lparr>numberOfChannels = 2, length_samples = 24, sampleRate = 44100,
        channelData = [replicate 24 0, replicate 24 0]\<rparr> [65, 66] None = Some encoded) \<and>
   length (totalBits_of [65]) >
     numberOfChannels
       \<lparr>numberOfChannels = 3, length_samples = 13, sampleRate = 44100,
        channelData = [replicate 13 0, replicate 13 0, replicate 13 0]\<rparr> *
     length_samples
       \<lparr>numberOfChannels = 3, length_samples = 13, sampleRate = 44100,
        channelData = [replicate 13 0, replicate 13 0, replicate 13 0]\<rparr> \<and>
   encodeAudioMessage
       \<lparr>numberOfChannels = 3, length_samples = 13, sampleRate = 44100,
        channelData = [replicate 13 0, replicate 13 0, replicate 13 0]\<rparr> [65] None = None \<and>
   8 * length [65 :: 8 word] < (2 :: nat) ^ 32 \<and>
   length (totalBits_of [65]) = 32 + 8 * length [65 :: 8 word]"
proof -
  have t: "length (totalBits_of [65]) = 40" "length (totalBits_of [65, 66]) = 48"
    by code_simp+
  have u1: "usable_slots \<lparr>data = replicate 64 0, width = 4, height = 4\<rparr> = 48"
    by code_simp
  have u2: "usable_slots \<lparr>data = replicate 48 0, width = 6, height = 2\<rparr> = 36"
    by code_simp
  show ?thesis
    using C6_capacity_boundary[of "[65, 66]" "\<lparr>data = replicate 64 0, width = 4, height = 4\<rparr>" None
        "\<lparr>numberOfChannels = 2, length_samples = 24, sampleRate = 44100,
        channelData = [replicate 24 0, replicate 24 0]\<rparr>"]
      C6_capacity_boundary[of "[65]" "\<lparr>data = replicate 48 0, width = 6, height = 2\<rparr>" None
        "\<lparr>numberOfChannels = 3, length_samples = 13, sampleRate = 44100,
        channelData = [replicate 13 0, replicate 13 0, replicate 13 0]\<rparr>"]
    by (simp add: t u1 u2)
qed

text \<open>
  C4. No-seed behaviour, as the code has it: when the seed argument is the empty string,
  the four codec functions use the usable slots in natural ascending order, without
  shuffling. When the seed argument is absent, the default parameter value replaces it,
  and the functions behave as they do for that default seed string.
\<close>

theorem C4_empty_seed_natural_order:
  "decode_slots imageData (Some []) = availableIndices_of (length (data imageData)) \<and>
   encodeMessage imageData payload (Some []) =
     (if length (totalBits_of payload) > usable_slots imageData then None
      else Some \<lparr>data = write_bits (availableIndices_of (length (data imageData)))
                          (totalBits_of payload) (data imageData),
                 width = width imageData, height = height imageData\<rparr>) \<and>
   audio_decode_slots audioBuffer (Some []) =
     [0..<numberOfChannels audioBuffer * length_samples audioBuffer] \<and>
   encodeAudioMessage audioBuffer payload (Some []) =
     (if length (totalBits_of payload) > numberOfChannels audioBuffer * length_samples audioBuffer
      then None
      else Some (write_sample_bits
                   [0..<numberOfChannels audioBuffer * length_samples audioBuffer]
                   (totalBits_of payload)
                   (copy_channels audioBuffer
                      (createBuffer (numberOfChannels audioBuffer) (length_samples audioBuffer)
                         (sampleRate audioBuffer))))) \<and>
   decode_slots imageData None =
     chaotic_shuffle DEFAULT_SEED (availableIndices_of (length (data imageData))) \<and>
   encodeMessage imageData payload None = encodeMessage imageData payload (Some DEFAULT_SEED) \<and>
   decodeMessage imageData None = decodeMessage imageData (Some DEFAULT_SEED) \<and>
   audio_decode_slots audioBuffer None =
     chaotic_shuffle AUDIO_DEFAULT_SEED
       [0..<numberOfChannels audioBuffer * length_samples audioBuffer] \<and>
   encodeAudioMessage audioBuffer payload None =
     encodeAudioMessage audioBuffer payload (Some AUDIO_DEFAULT_SEED) \<and>
   decodeAudioMessage audioBuffer None = decodeAudioMessage audioBuffer (Some AUDIO_DEFAULT_SEED)"
proof (intro conjI)
  show "decode_slots imageData (Some []) = availableIndices_of (length (data imageData))"
    by (simp add: decode_slots_def seed_or_default_def chaotic_shuffle_empty)
  show "encodeMessage imageData payload (Some []) =
     (if length (totalBits_of payload) > usable_slots imageData then None
      else Some \<lparr>data = write_bits (availableIndices_of (length (data imageData)))
                          (totalBits_of payload) (data imageData),
                 width = width imageData, height = height imageData\<rparr>)"
    by (simp add: encodeMessage_def Let_def seed_or_default_def chaotic_shuffle_empty usable_slots_def)
  show "audio_decode_slots audioBuffer (Some []) =
     [0..<numberOfChannels audioBuffer * length_samples audioBuffer]"
    by (simp add: audio_decode_slots_def seed_or_default_def chaotic_shuffle_empty)
  show "encodeAudioMessage audioBuffer payload (Some []) =
     (if length (totalBits_of payload) > numberOfChannels audioBuffer * length_samples audioBuffer
      then None
      else Some (write_sample_bits
                   [0..<numberOfChannels audioBuffer * length_samples audioBuffer]
                   (totalBits_of payload)
                   (copy_channels audioBuffer
                      (createBuffer (numberOfChannels audioBuffer) (length_samples audioBuffer)
                         (sampleRate audioBuffer)))))"
    by (simp add: encodeAudioMessage_def Let_def seed_or_default_def chaotic_shuffle_empty)
  show "decode_slots imageData None =
     chaotic_shuffle DEFAULT_SEED (availableIndices_of (length (data imageData)))"
    by (simp add: decode_slots_def seed_or_default_def)
  show "encodeMessage imageData payload None = encodeMessage imageData payload (Some DEFAULT_SEED)"
    by (simp add: encodeMessage_def seed_or_default_def)
  show "decodeMessage imageData None = decodeMessage imageData (Some DEFAULT_SEED)"
    by (simp add: decodeMessage_def decoded_length_def decode_slots_def seed_or_default_def)
  show "audio_decode_slots audioBuffer None =
     chaotic_shuffle AUDIO_DEFAULT_SEED
       [0..<numberOfChannels audioBuffer * length_samples audioBuffer]"
    by (simp add: audio_decode_slots_def seed_or_default_def)
  show "encodeAudioMessage audioBuffer payload None =
     encodeAudioMessage audioBuffer payload (Some AUDIO_DEFAULT_SEED)"
    by (simp add: encodeAudioMessage_def seed_or_default_def)
  show "decodeAudioMessage audioBuffer None = decodeAudioMessage audioBuffer (Some AUDIO_DEFAULT_SEED)"
    by (simp add: decodeAudioMessage_def audio_decode_slots_def seed_or_default_def)
qed

text \<open>
  With an absent seed the slots are shuffled: on a carrier of one pixel, \<open>decodeMessage\<close>
  reads the slots in the order 0, 2, 1.
\<close>

theorem C4_absent_seed_counterexample:
  "decode_slots \<lparr>data = [0, 0, 0, 0], width = 1, height = 1\<rparr> None = [0, 2, 1] \<and>
   availableIndices_of (length (data \<lparr>data = [0, 0, 0, 0], width = 1, height = 1\<rparr>)) = [0, 1, 2]"
proof -
  have a: "availableIndices_of (length (data \<lparr>data = [0, 0, 0, 0], width = 1, height = 1\<rparr>)) = [0, 1, 2]"
    by code_simp
  have ne: "DEFAULT_SEED \<noteq> []"
    by (simp add: DEFAULT_SEED_def js_string_of_def)
  have "char_code_sum DEFAULT_SEED = 3114"
    by code_simp
  then have s0: "seed (SeededRandom_new DEFAULT_SEED) = of_nat 3114"
    using SeededRandom_new_exact[of DEFAULT_SEED] by simp
  define r1 where "r1 = (SeededRandom_new DEFAULT_SEED)\<lparr>seed := of_nat 85891\<rparr>"
  have n1: "SeededRandom_next (SeededRandom_new DEFAULT_SEED) = (num_div (of_nat 85891) 233280, r1)"
    using SeededRandom_next_exact[OF s0] by (simp add: r1_def)
  have s1: "seed r1 = of_nat 85891" by (simp add: r1_def)
  have n2: "SeededRandom_next r1 = (num_div (of_nat 170768) 233280, r1\<lparr>seed := of_nat 170768\<rparr>)"
    using SeededRandom_next_exact[OF s1] by simp
  have d1: "draw_index (num_div 85891 233280) (Suc (Suc 0)) = Suc 0"
    by code_simp
  have d2: "draw_index (num_div 170768 233280) (Suc 0) = Suc 0"
    by code_simp
  have "shuffle_loop (Suc (Suc 0)) (SeededRandom_new DEFAULT_SEED) [0, 1, 2] = [0, 2, 1]"
    by (simp add: n1 n2 d1 d2 swap_def)
  then have cs: "chaotic_shuffle DEFAULT_SEED [0, 1, 2] = [0, 2, 1]"
    using ne by (simp add: chaotic_shuffle_def numeral_2_eq_2)
  show ?thesis
    by (simp only: decode_slots_def seed_or_default_def option.case a cs simp_thms)
qed

text \<open>
  C9. Encode frame property: on the store of typed arrays, \<open>encodeMessage\<close> leaves the
  array of the caller's \<open>ImageData\<close> unchanged. When it returns the sentinel the store is
  unchanged. When it returns a carrier, the carrier's array is a new one of the same
  length in which every alpha component (index congruent to 3 modulo 4) equals the
  original and every component has the upper 7 bits of the original.
\<close>

theorem C9_encode_frame:
  assumes "data_ref imageData < next_ref st"
    and "encodeMessage_store st imageData payload seed_arg = (res, st')"
  shows "arrays st' (data_ref imageData) = arrays st (data_ref imageData) \<and>
         (case res of
            None \<Rightarrow> st' = st
          | Some encoded \<Rightarrow>
              data_ref encoded \<noteq> data_ref imageData \<and>
              length (arrays st' (data_ref encoded)) = length (arrays st (data_ref imageData)) \<and>
              (\<forall>i<length (arrays st (data_ref imageData)).
                 (i mod 4 = 3 \<longrightarrow>
                    arrays st' (data_ref encoded) ! i = arrays st (data_ref imageData) ! i) \<and>
                 drop_bit 1 (arrays st' (data_ref encoded) ! i)
                   = drop_bit 1 (arrays st (data_ref imageData) ! i)))"
proof (cases "length (totalBits_of payload) > length (availableIndices_of (length (arrays st (data_ref imageData))))")
  case True
  then show ?thesis using assms(2) by (auto simp: encodeMessage_store_eq)
next
  case False
  define d where "d = arrays st (data_ref imageData)"
  define sl where "sl = chaotic_shuffle (seed_or_default DEFAULT_SEED seed_arg)
                          (availableIndices_of (length d))"
  have sl: "distinct sl" "\<forall>p\<in>set sl. p < length d \<and> p mod 4 \<noteq> 3"
    "length (totalBits_of payload) \<le> length sl"
    using shuffled_slots[of "seed_or_default DEFAULT_SEED seed_arg" "length d"] False
    by (simp_all add: sl_def d_def)
  have res: "res = Some \<lparr>data_ref = next_ref st, width_of = width_of imageData,
                   height_of = height_of imageData\<rparr>"
    and st': "st' = st\<lparr>arrays := (arrays st)(next_ref st := write_bits sl (totalBits_of payload) d),
               next_ref := Suc (next_ref st)\<rparr>"
    using assms(2) False by (simp_all add: encodeMessage_store_eq sl_def d_def)
  have new: "arrays st' (next_ref st) = write_bits sl (totalBits_of payload) d"
    by (simp add: st')
  have old: "arrays st' (data_ref imageData) = d"
    using assms(1) by (simp add: st' d_def)
  have len: "length (write_bits sl (totalBits_of payload) d) = length d"
    by (rule write_bits_props(1)[OF sl(1,3)])
  have fr: "(i mod 4 = 3 \<longrightarrow> write_bits sl (totalBits_of payload) d ! i = d ! i) \<and>
         drop_bit 1 (write_bits sl (totalBits_of payload) d ! i) = drop_bit 1 (d ! i)"
    if "i < length d" for i
    by (rule write_bits_frame[OF sl(1,3,2) totalBits_of_bits that])
  show ?thesis
    using assms(1) fr unfolding res old d_def[symmetric]
    by (simp add: new len)
qed

theorem C9_encode_frame_witness:
  "data_ref \<lparr>data_ref = 0, width_of = 6, height_of = 2\<rparr> < next_ref \<lparr>arrays = (\<lambda>r. if r = 0 then replicate 48 255 else []), next_ref = 2\<rparr> \<and>
   (\<exists>encoded st'.
      encodeMessage_store \<lparr>arrays = (\<lambda>r. if r = 0 then replicate 48 255 else []), next_ref = 2\<rparr> \<lparr>data_ref = 0, width_of = 6, height_of = 2\<rparr> [] (Some []) = (Some encoded, st') \<and>
      arrays st' (data_ref \<lparr>data_ref = 0, width_of = 6, height_of = 2\<rparr>) = replicate 48 255 \<and>
      data_ref encoded \<noteq> data_ref \<lparr>data_ref = 0, width_of = 6, height_of = 2\<rparr> \<and>
      length (arrays st' (data_ref encoded)) = 48 \<and>
      arrays st' (data_ref encoded) ! 3 = 255 \<and>
      drop_bit 1 (arrays st' (data_ref encoded) ! 0) = drop_bit 1 (255 :: 8 word))"
proof -
  define st0 where "st0 = \<lparr>arrays = (\<lambda>r. if r = 0 then replicate 48 255 else []), next_ref = 2\<rparr>"
  define P0 where "P0 = \<lparr>data_ref = 0, width_of = 6, height_of = 2\<rparr>"
  have h: "data_ref P0 < next_ref st0"
    by (simp add: st0_def P0_def)
  have d: "arrays st0 (data_ref P0) = replicate 48 255"
    by (simp add: st0_def P0_def)
  have fit: "\<not> length (totalBits_of []) > length (availableIndices_of (length (arrays st0 (data_ref P0))))"
    by (simp add: d length_availableIndices_of length_totalBits_of)
  obtain encoded st' where eq: "encodeMessage_store st0 P0 [] (Some []) = (Some encoded, st')"
    using fit by (simp add: encodeMessage_store_eq)
  have fr: "arrays st' (data_ref P0) = arrays st0 (data_ref P0) \<and>
      data_ref encoded \<noteq> data_ref P0 \<and>
      length (arrays st' (data_ref encoded)) = length (arrays st0 (data_ref P0)) \<and>
      (\<forall>i<length (arrays st0 (data_ref P0)).
         (i mod 4 = 3 \<longrightarrow> arrays st' (data_ref encoded) ! i = arrays st0 (data_ref P0) ! i) \<and>
         drop_bit 1 (arrays st' (data_ref encoded) ! i) = drop_bit 1 (arrays st0 (data_ref P0) ! i))"
    using C9_encode_frame[OF h eq] by simp
  then have "arrays st' (data_ref P0) = replicate 48 255"
    and "data_ref encoded \<noteq> data_ref P0"
    and "length (arrays st' (data_ref encoded)) = 48"
    and "arrays st' (data_ref encoded) ! 3 = 255"
    and "drop_bit 1 (arrays st' (data_ref encoded) ! 0) = drop_bit 1 (255 :: 8 word)"
    by (simp_all add: d)
  then show ?thesis
    using h eq unfolding st0_def P0_def by blast
qed

text \<open>
  C2. Audio round-trip. The code does not have it: a sample write rounds
  \<open>intSample / 32767\<close> to 24 significant bits, and the rounded value of \<open>1 / 32767\<close> is
  below \<open>1 / 32767\<close>, so that \<open>Math.floor(sample * 32767)\<close> reads 0 where 1 was written.
  On a silent mono buffer of 40 samples, \<open>encodeAudioMessage\<close> of the one-byte payload
  0x41 returns a buffer, and \<open>decodeAudioMessage\<close> of that buffer returns the sentinel
  instead of the payload.
\<close>

theorem C2_audio_round_trip_fails:
  "bit_char (nat (quantize (embed_sample 0 CHR ''1'') AND 1)) = CHR ''0'' \<and>
   (\<exists>encoded.
      encodeAudioMessage
        \<lparr>numberOfChannels = 1, length_samples = 40, sampleRate = 44100,
        channelData = [replicate 40 0]\<rparr> [65] None = Some encoded \<and>
      decodeAudioMessage encoded None = None)"
proof -
  have "bit_char (nat (quantize (embed_sample 0 CHR ''1'') AND 1)) = CHR ''0''"
    by (simp add: embed_sample_low read_low)
  moreover have "length (totalBits_of [65]) \<le> 40"
    by (simp add: length_totalBits_of)
  then have "\<exists>encoded.
      encodeAudioMessage
        \<lparr>numberOfChannels = 1, length_samples = 40, sampleRate = 44100,
        channelData = [replicate 40 0]\<rparr> [65] None = Some encoded \<and>
      decodeAudioMessage encoded None = None"
    by (intro silent_buffer_loses_payload[where n = 40]) simp_all
  ultimately show ?thesis by blast
qed

section \<open>Claims about the shuffle\<close>

text \<open>
  C3. Permutation determinism: for every seed string and every array of slots, the
  construction of the generator from the seed followed by the Fisher-Yates loop has a
  complete execution, and any two complete executions end with the same sequence.
\<close>

theorem C3_permutation_deterministic:
  "(\<exists>r. shuffle_run seedStr a r) \<and>
   (shuffle_run seedStr a p \<longrightarrow> shuffle_run seedStr a q \<longrightarrow> p = q)"
proof
  show "\<exists>r. shuffle_run seedStr a r"
    using shuffle_run_total by blast
  show "shuffle_run seedStr a p \<longrightarrow> shuffle_run seedStr a q \<longrightarrow> p = q"
    unfolding shuffle_run_def by (blast intro: shuffle_steps_unique)
qed

theorem C3_permutation_deterministic_witness:
  "shuffle_run (js_string_of ''test'') [0, 1] [1, 0] \<and>
   shuffle_run (js_string_of ''test'') [0, 1] (chaotic_shuffle (js_string_of ''test'') [0, 1]) \<and>
   [1, 0] = chaotic_shuffle (js_string_of ''test'') [0, 1]"
proof -
  have ne: "js_string_of ''test'' \<noteq> []"
    by (simp add: js_string_of_def)
  have "char_code_sum (js_string_of ''test'') = 448"
    by code_simp
  then have s0: "seed (SeededRandom_new (js_string_of ''test'')) = of_nat 448"
    using SeededRandom_new_exact[of "js_string_of ''test''"] by simp
  have n1: "SeededRandom_next (SeededRandom_new (js_string_of ''test'')) =
     (num_div (of_nat 17105) 233280,
      (SeededRandom_new (js_string_of ''test''))\<lparr>seed := of_nat 17105\<rparr>)"
    using SeededRandom_next_exact[OF s0] by simp
  have d1: "draw_index (num_div 17105 233280) (Suc 0) = 0"
    by code_simp
  have e: "chaotic_shuffle (js_string_of ''test'') [0, 1] = [1, 0]"
    using ne by (simp add: chaotic_shuffle_def n1 d1 swap_def)
  have r: "shuffle_run (js_string_of ''test'') [0, 1]
     (chaotic_shuffle (js_string_of ''test'') [0, 1])"
    by (rule shuffle_run_chaotic_shuffle[OF ne])
  have r': "shuffle_run (js_string_of ''test'') [0, 1] [1, 0]"
    using r unfolding e .
  show ?thesis
    using C3_permutation_deterministic[of "js_string_of ''test''" "[0, 1]"
        "[1, 0]" "chaotic_shuffle (js_string_of ''test'') [0, 1]"] r r'
    by blast
qed

text \<open>
  C10. Seed collision by character-code sum, as the code has it: two seed strings that
  are not empty and whose character codes have the same sum (below \<open>2\<^sup>5\<^sup>3\<close>, where the
  sum is exact) give the same permutation of every slot array and the same results of the
  four codec functions; so a payload that is not empty, has fewer than \<open>2\<^sup>3\<^sup>2\<close> bits and
  fits is extracted with one seed after being embedded with the other.
\<close>

theorem C10_seed_collision:
  assumes "seedA \<noteq> []" and "seedB \<noteq> []"
    and "char_code_sum seedA = char_code_sum seedB" and "char_code_sum seedA < 2 ^ 53"
  shows "chaotic_shuffle seedA a = chaotic_shuffle seedB a \<and>
         encodeMessage imageData payload (Some seedA) = encodeMessage imageData payload (Some seedB) \<and>
         decodeMessage imageData (Some seedA) = decodeMessage imageData (Some seedB) \<and>
         encodeAudioMessage audioBuffer payload (Some seedA)
           = encodeAudioMessage audioBuffer payload (Some seedB) \<and>
         decodeAudioMessage audioBuffer (Some seedA) = decodeAudioMessage audioBuffer (Some seedB) \<and>
         (payload \<noteq> [] \<longrightarrow> 8 * length payload < 2 ^ 32 \<longrightarrow>
          8 * length payload + 32 \<le> usable_slots imageData \<longrightarrow>
          (\<exists>encoded. encodeMessage imageData payload (Some seedA) = Some encoded \<and>
             decodeMessage encoded (Some seedB) = Some payload))"
proof -
  have sh: "chaotic_shuffle seedA b = chaotic_shuffle seedB b" for b
    by (rule same_shuffle[OF assms])
  have dec: "decodeMessage im (Some seedA) = decodeMessage im (Some seedB)" for im
    by (simp add: decodeMessage_def Let_def decoded_length_def decode_slots_def seed_or_default_def sh)
  have rt: "\<exists>encoded. encodeMessage imageData payload (Some seedA) = Some encoded \<and>
             decodeMessage encoded (Some seedB) = Some payload"
    if "payload \<noteq> []" "8 * length payload < 2 ^ 32" "8 * length payload + 32 \<le> usable_slots imageData"
    using encode_then_decode[OF that, of "Some seedA"] by (simp add: dec)
  show ?thesis
  proof (intro conjI impI)
    show "chaotic_shuffle seedA a = chaotic_shuffle seedB a" by (rule sh)
    show "encodeMessage imageData payload (Some seedA) = encodeMessage imageData payload (Some seedB)"
      by (simp add: encodeMessage_def Let_def seed_or_default_def sh)
    show "decodeMessage imageData (Some seedA) = decodeMessage imageData (Some seedB)" by (rule dec)
    show "encodeAudioMessage audioBuffer payload (Some seedA)
           = encodeAudioMessage audioBuffer payload (Some seedB)"
      by (simp add: encodeAudioMessage_def Let_def seed_or_default_def sh)
    show "decodeAudioMessage audioBuffer (Some seedA) = decodeAudioMessage audioBuffer (Some seedB)"
      by (simp add: decodeAudioMessage_def Let_def audio_decode_slots_def seed_or_default_def sh)
  qed (rule rt)
qed

theorem C10_seed_collision_witness:
  "js_string_of ''ab'' \<noteq> [] \<and> js_string_of ''ba'' \<noteq> [] \<and>
   char_code_sum (js_string_of ''ab'') = char_code_sum (js_string_of ''ba'') \<and>
   char_code_sum (js_string_of ''ab'') < 2 ^ 53 \<and>
   [65 :: 8 word] \<noteq> [] \<and> 8 * length [65 :: 8 word] < (2 :: nat) ^ 32 \<and>
   8 * length [65 :: 8 word] + 32 \<le> usable_slots \<lparr>data = replicate 56 0, width = 7, height = 2\<rparr> \<and>
   chaotic_shuffle (js_string_of ''ab'') [0, 1, 2] = chaotic_shuffle (js_string_of ''ba'') [0, 1, 2] \<and>
   (\<exists>encoded. encodeMessage \<lparr>data = replicate 56 0, width = 7, height = 2\<rparr> [65]
                 (Some (js_string_of ''ab'')) = Some encoded \<and>
              decodeMessage encoded (Some (js_string_of ''ba'')) = Some [65])"
proof -
  have n: "js_string_of ''ab'' \<noteq> []" "js_string_of ''ba'' \<noteq> []"
    by (simp_all add: js_string_of_def)
  have c: "char_code_sum (js_string_of ''ab'') = 195" "char_code_sum (js_string_of ''ba'') = 195"
    by code_simp+
  have u: "usable_slots \<lparr>data = replicate 56 0, width = 7, height = 2\<rparr> = 42"
    by code_simp
  have e: "char_code_sum (js_string_of ''ab'') = char_code_sum (js_string_of ''ba'')"
    and l: "char_code_sum (js_string_of ''ab'') < 2 ^ 53"
    by (simp_all add: c)
  note th = C10_seed_collision[OF n e l, of "[0, 1, 2]"
      "\<lparr>data = replicate 56 0, width = 7, height = 2\<rparr>" "[65]"]
  have k: "chaotic_shuffle (js_string_of ''ab'') [0, 1, 2] = chaotic_shuffle (js_string_of ''ba'') [0, 1, 2]"
    using th by blast
  have "[65 :: 8 word] \<noteq> [] \<longrightarrow> 8 * length [65 :: 8 word] < (2 :: nat) ^ 32 \<longrightarrow>
     8 * length [65 :: 8 word] + 32 \<le> usable_slots \<lparr>data = replicate 56 0, width = 7, height = 2\<rparr> \<longrightarrow>
     (\<exists>encoded. encodeMessage \<lparr>data = replicate 56 0, width = 7, height = 2\<rparr> [65]
                 (Some (js_string_of ''ab'')) = Some encoded \<and>
              decodeMessage encoded (Some (js_string_of ''ba'')) = Some [65])"
    using th by blast
  then have r: "\<exists>encoded. encodeMessage \<lparr>data = replicate 56 0, width = 7, height = 2\<rparr> [65]
                 (Some (js_string_of ''ab'')) = Some encoded \<and>
              decodeMessage encoded (Some (js_string_of ''ba'')) = Some [65]"
    by (simp add: u)
  show ?thesis
    using n e l k r by (simp add: u)
qed

text \<open>
  The empty string and the string of the single character with code 0 are distinct seed
  strings with the same sum 0, yet the first one leaves the slots in natural order and
  the second one shuffles them.
\<close>

theorem C10_empty_seed_counterexample:
  "([] :: js_string) \<noteq> [0] \<and> char_code_sum [] = char_code_sum [0] \<and>
   chaotic_shuffle [] [0, 1] = [0, 1] \<and> chaotic_shuffle [0] [0, 1] = [1, 0]"
proof -
  have c: "char_code_sum [] = 0" "char_code_sum [0] = 0"
    by code_simp+
  have s0: "seed (SeededRandom_new [0]) = of_nat 0"
    using SeededRandom_new_exact[of "[0]"] by (simp add: c)
  have n1: "SeededRandom_next (SeededRandom_new [0]) =
     (num_div (of_nat 49297) 233280, (SeededRandom_new [0])\<lparr>seed := of_nat 49297\<rparr>)"
    using SeededRandom_next_exact[OF s0] by simp
  have d1: "draw_index (num_div 49297 233280) (Suc 0) = 0"
    by code_simp
  have "chaotic_shuffle [0] [0, 1] = [1, 0]"
    by (simp add: chaotic_shuffle_def n1 d1 swap_def)
  then show ?thesis
    by (simp add: c chaotic_shuffle_empty)
qed

section \<open>Claims about the envelope\<close>

text \<open>
  C8. Envelope layout: for every payload, password argument and compress flag,
  \<open>encryptData\<close> returns a byte sequence whose byte 0 is 1 if compression was requested and
  0 otherwise, whose bytes 1 to 16 are the salt drawn from the random source, whose bytes
  17 to 28 are the nonce drawn next, and whose bytes from 29 on are the output of the
  cipher for the derived key, the nonce and the (compressed) payload; its length is at
  least 29.
\<close>

theorem C8_envelope_layout:
  fixes pf tape dat password_arg compress_arg
  defines "password \<equiv> (case password_arg of None \<Rightarrow> DEFAULT_KEY | Some pw \<Rightarrow> pw)"
    and "compress \<equiv> (case compress_arg of None \<Rightarrow> True | Some c \<Rightarrow> c)"
    and "raw \<equiv> (case dat of Inl str \<Rightarrow> encode pf str | Inr b \<Rightarrow> b)"
    and "salt \<equiv> fst (getRandomValues SALT_SIZE tape)"
    and "iv \<equiv> fst (getRandomValues IV_SIZE (snd (getRandomValues SALT_SIZE tape)))"
  shows "\<exists>combined tape'.
     encryptData pf tape dat password_arg compress_arg = Some (combined, tape') \<and>
     combined ! 0 = (if compress then 1 else 0) \<and>
     slice combined 1 17 = salt \<and> length salt = 16 \<and>
     slice combined 17 29 = iv \<and> length iv = 12 \<and>
     drop 29 combined =
       aes_gcm_encrypt pf (derive_key pf (encode pf password) salt ITERATIONS) iv
         (if compress then compressData pf raw else raw) \<and>
     29 \<le> length combined"
proof -
  have salt: "salt = map tape [0..<16]"
    by (simp add: salt_def getRandomValues_def SALT_SIZE_def)
  have "[16..<28] = map (\<lambda>i. i + 16) [0..<12]"
    by (simp only: map_add_upt) simp
  then have "map tape [16..<28] = map tape (map (\<lambda>i. i + 16) [0..<12])"
    by (rule arg_cong)
  then have iv: "iv = map tape [16..<28]"
    by (simp add: iv_def getRandomValues_def SALT_SIZE_def IV_SIZE_def comp_def)
  have l: "length salt = 16" "length iv = 12"
    by (simp_all add: salt iv)
  define encrypted where "encrypted =
    aes_gcm_encrypt pf (derive_key pf (encode pf password) salt ITERATIONS) iv
         (if compress then compressData pf raw else raw)"
  have e: "encryptData pf tape dat password_arg compress_arg =
     Some ((if compress then 1 else 0) # salt @ iv @ encrypted, \<lambda>i. tape (i + 28))"
    unfolding encrypted_def salt iv password_def compress_def raw_def by (rule encryptData_eq)
  have "slice ((if compress then 1 else 0) # salt @ iv @ encrypted) 1 17 = salt"
    "slice ((if compress then 1 else 0) # salt @ iv @ encrypted) 17 29 = iv"
    "drop 29 ((if compress then 1 else 0) # salt @ iv @ encrypted) = encrypted"
    using l by (simp_all add: slice_def)
  then show ?thesis
    using e l unfolding encrypted_def by simp
qed

text \<open>
  C7. Envelope round-trip: when AES-GCM decryption inverts encryption under the same key
  and nonce, gunzip inverts gzip and a byte array always gives a body stream, then for
  every payload (bytes, or a string through the encoder), password argument and compress
  flag, \<open>decryptData\<close> of the envelope returned by \<open>encryptData\<close>, with the same password
  argument, returns exactly the payload as its \<open>data\<close>.
\<close>

theorem C7_envelope_round_trip:
  fixes pf tape dat password_arg compress_arg
  defines "raw \<equiv> (case dat of Inl str \<Rightarrow> encode pf str | Inr b \<Rightarrow> b)"
  assumes cipher: "\<forall>key iv m. aes_gcm_decrypt pf key iv (aes_gcm_encrypt pf key iv m) = Some m"
    and compressor: "\<forall>m. gunzip pf (gzip pf m) = Some m"
    and stream: "\<forall>d. has_body_stream pf d"
  shows "\<exists>combined tape'.
     encryptData pf tape dat password_arg compress_arg = Some (combined, tape') \<and>
     decryptData pf combined password_arg = Some (raw, decodes_as_utf8 pf raw)"
proof -
  define password where "password = (case password_arg of None \<Rightarrow> DEFAULT_KEY | Some pw \<Rightarrow> pw)"
  define compress where "compress = (case compress_arg of None \<Rightarrow> True | Some c \<Rightarrow> c)"
  define salt where "salt = map tape [0..<16]"
  define iv where "iv = map tape [16..<28]"
  define plain where "plain = (if compress then compressData pf raw else raw)"
  define key where "key = derive_key pf (encode pf password) salt ITERATIONS"
  define combined where
    "combined = (if compress then 1 else 0) # salt @ iv @ aes_gcm_encrypt pf key iv plain"
  have l: "length salt = 16" "length iv = 12"
    by (simp_all add: salt_def iv_def)
  have e: "encryptData pf tape dat password_arg compress_arg = Some (combined, \<lambda>i. tape (i + 28))"
    unfolding combined_def key_def plain_def salt_def iv_def password_def compress_def raw_def
    by (rule encryptData_eq)
  have parts: "slice combined 1 (1 + SALT_SIZE) = salt"
    "slice combined (1 + SALT_SIZE) (1 + SALT_SIZE + IV_SIZE) = iv"
    "drop (1 + SALT_SIZE + IV_SIZE) combined = aes_gcm_encrypt pf key iv plain"
    "(case combined of [] \<Rightarrow> False | b # _ \<Rightarrow> b = 1) = compress"
    using l by (simp_all add: combined_def slice_def SALT_SIZE_def IV_SIZE_def)
  have un: "(if compress then decompressData pf plain else plain) = raw"
    using compressor stream by (simp add: plain_def compressData_def decompressData_def)
  have "decryptData pf combined password_arg = Some (raw, decodes_as_utf8 pf raw)"
    unfolding decryptData_def Let_def parts password_def[symmetric] key_def[symmetric]
    using cipher by (simp add: un)
  with e show ?thesis by blast
qed

theorem C7_envelope_round_trip_witness:
  "(\<forall>key iv m. aes_gcm_decrypt toy_platform key iv (aes_gcm_encrypt toy_platform key iv m) = Some m) \<and>
   (\<forall>m. gunzip toy_platform (gzip toy_platform m) = Some m) \<and>
   (\<forall>d. has_body_stream toy_platform d) \<and>
   (\<exists>combined tape'.
      encryptData toy_platform (\<lambda>i. of_nat i) (Inr [72, 73]) (Some (js_string_of ''pw'')) (Some True)
        = Some (combined, tape') \<and>
      decryptData toy_platform combined (Some (js_string_of ''pw''))
        = Some ([72, 73], decodes_as_utf8 toy_platform [72, 73]))"
proof -
  have c: "\<forall>key iv m. aes_gcm_decrypt toy_platform key iv (aes_gcm_encrypt toy_platform key iv m) = Some m"
    by (simp add: toy_platform_def)
  have z: "\<forall>m. gunzip toy_platform (gzip toy_platform m) = Some m"
    by (simp add: toy_platform_def)
  have b: "\<forall>d. has_body_stream toy_platform d"
    by (simp add: toy_platform_def)
  show ?thesis
    using C7_envelope_round_trip[OF c z b, of "\<lambda>i. of_nat i" "Inr [72, 73]"
        "Some (js_string_of ''pw'')" "Some True"] c z b
    by simp
qed

end
